theory Spec2Isabelle
  imports
    Complex_Main
    "HOL-Library.Char_ord"
    "HOL-Library.List_Lexorder"
    "HOL-Library.Multiset"
begin

section \<open>JavaScript values\<close>

text \<open>
  The custom commands of \<^verbatim>\<open>cypress/support/commands.ts\<close> work on parsed JSON response
  bodies. A record is an object whose fields hold scalars; a field value is one of
  \<^verbatim>\<open>undefined\<close>, \<^verbatim>\<open>null\<close>, a boolean, a number or a string. Numbers are the IEEE doubles
  read by their mathematical value, with \<^verbatim>\<open>NaN\<close> and the two infinities kept apart (the
  sign of zero is not distinguished). Strings are lists of 8-bit characters, so the model
  covers ASCII text. Field values that are arrays or objects are added in the section on
  sort fields that hold arrays and objects.
\<close>

datatype jsnum = NaN | NegInf | Fin rat | PosInf

datatype jsval = JUndefined | JNull | JBool bool | JNum jsnum | JStr string

type_synonym jsrec = "(string \<times> jsval) list"

text \<open>Property read \<^verbatim>\<open>o[key]\<close>: an absent property reads as \<^verbatim>\<open>undefined\<close>.\<close>

definition get_prop :: "jsrec \<Rightarrow> string \<Rightarrow> jsval" where
  "get_prop obj k = (case map_of obj k of None \<Rightarrow> JUndefined | Some v \<Rightarrow> v)"

text \<open>\<^verbatim>\<open>typeof v\<close> on the scalars (\<^verbatim>\<open>typeof null\<close> is \<^verbatim>\<open>"object"\<close>).\<close>

fun typeof :: "jsval \<Rightarrow> string" where
  "typeof JUndefined = ''undefined''"
| "typeof JNull = ''object''"
| "typeof (JBool b) = ''boolean''"
| "typeof (JNum n) = ''number''"
| "typeof (JStr s) = ''string''"

text \<open>\<^verbatim>\<open>v == null\<close>: loose equality with \<^verbatim>\<open>null\<close> holds of \<^verbatim>\<open>null\<close> and \<^verbatim>\<open>undefined\<close> only.\<close>

definition loose_eq_null :: "jsval \<Rightarrow> bool" where
  "loose_eq_null v = (v = JNull \<or> v = JUndefined)"

text \<open>\<^verbatim>\<open>a ?? b\<close>: the right operand replaces \<^verbatim>\<open>null\<close> and \<^verbatim>\<open>undefined\<close>.\<close>

definition nullish :: "jsval \<Rightarrow> jsval \<Rightarrow> jsval" where
  "nullish a b = (if a = JNull \<or> a = JUndefined then b else a)"

text \<open>
  \<^verbatim>\<open>String.prototype.toLocaleLowerCase\<close> on ASCII text, in a host locale without special
  casing rules for the Latin letters: \<^verbatim>\<open>A\<close>..\<^verbatim>\<open>Z\<close> go to \<^verbatim>\<open>a\<close>..\<^verbatim>\<open>z\<close>, every other character
  stays.
\<close>

definition lower_char :: "char \<Rightarrow> char" where
  "lower_char c =
     (let n = (of_char c :: nat) in if 65 \<le> n \<and> n \<le> 90 then char_of (n + 32) else c)"

definition toLocaleLowerCase :: "string \<Rightarrow> string" where
  "toLocaleLowerCase s = map lower_char s"

text \<open>
  \<^verbatim>\<open>a === b\<close> on scalars: \<^verbatim>\<open>NaN\<close> is not equal to itself, everything else is compared by
  type and value.
\<close>

definition strict_equals :: "jsval \<Rightarrow> jsval \<Rightarrow> bool" where
  "strict_equals a b = (a = b \<and> a \<noteq> JNum NaN)"

text \<open>Numeric \<^verbatim>\<open><\<close> on doubles: every comparison with \<^verbatim>\<open>NaN\<close> is false.\<close>

fun num_lt :: "jsnum \<Rightarrow> jsnum \<Rightarrow> bool" where
  "num_lt NaN b = False"
| "num_lt a NaN = False"
| "num_lt NegInf NegInf = False"
| "num_lt NegInf b = True"
| "num_lt (Fin x) NegInf = False"
| "num_lt (Fin x) (Fin y) = (x < y)"
| "num_lt (Fin x) PosInf = True"
| "num_lt PosInf b = False"

text \<open>
  \<^verbatim>\<open>ToNumber\<close> of the language specification. The conversion of a string (its numeric
  literal grammar and the rounding to a double) is a parameter \<open>s2n\<close> of the model:
  every result below holds for each such conversion.
\<close>

fun ToNumber :: "(string \<Rightarrow> jsnum) \<Rightarrow> jsval \<Rightarrow> jsnum" where
  "ToNumber s2n JUndefined = NaN"
| "ToNumber s2n JNull = Fin 0"
| "ToNumber s2n (JBool b) = (if b then Fin 1 else Fin 0)"
| "ToNumber s2n (JNum n) = n"
| "ToNumber s2n (JStr s) = s2n s"

text \<open>
  The relational operators \<^verbatim>\<open>a < b\<close> and \<^verbatim>\<open>a > b\<close> on scalars: two strings are compared
  by code units, lexicographically; in every other case both operands are converted to
  numbers.
\<close>

fun js_lt :: "(string \<Rightarrow> jsnum) \<Rightarrow> jsval \<Rightarrow> jsval \<Rightarrow> bool" where
  "js_lt s2n (JStr s) (JStr t) = (s < t)"
| "js_lt s2n a b = num_lt (ToNumber s2n a) (ToNumber s2n b)"

definition js_gt :: "(string \<Rightarrow> jsnum) \<Rightarrow> jsval \<Rightarrow> jsval \<Rightarrow> bool" where
  "js_gt s2n a b = js_lt s2n b a"

section \<open>The library functions the order check calls\<close>

datatype sort_order = Asc | Desc

fun order_name :: "sort_order \<Rightarrow> string" where
  "order_name Asc = ''asc''"
| "order_name Desc = ''desc''"

subsection \<open>lodash: \<^verbatim>\<open>compareAscending\<close>, \<^verbatim>\<open>compareMultiple\<close>, \<^verbatim>\<open>orderBy\<close>\<close>

text \<open>
  \<^verbatim>\<open>compareAscending(value, other)\<close> of lodash 4, with the symbol tests left out (no
  symbol is a JSON value).
\<close>

definition compareAscending :: "(string \<Rightarrow> jsnum) \<Rightarrow> jsval \<Rightarrow> jsval \<Rightarrow> int" where
  "compareAscending s2n v other =
     (if \<not> strict_equals v other then
        (let valIsDefined = (v \<noteq> JUndefined);
             valIsNull = (v = JNull);
             valIsReflexive = strict_equals v v;
             othIsDefined = (other \<noteq> JUndefined);
             othIsNull = (other = JNull);
             othIsReflexive = strict_equals other other
         in
           if (\<not> othIsNull \<and> js_gt s2n v other)
              \<or> (valIsNull \<and> othIsDefined \<and> othIsReflexive)
              \<or> (\<not> valIsDefined \<and> othIsReflexive)
              \<or> \<not> valIsReflexive
           then 1
           else if (\<not> valIsNull \<and> js_lt s2n v other)
              \<or> (othIsNull \<and> valIsDefined \<and> valIsReflexive)
              \<or> (\<not> othIsDefined \<and> valIsReflexive)
              \<or> \<not> othIsReflexive
           then - 1
           else 0)
      else 0)"

text \<open>
  \<^verbatim>\<open>baseOrderBy\<close> wraps every element with its criteria (one per iteratee) and its
  position in the collection: an object with the fields \<^verbatim>\<open>criteria\<close>, \<^verbatim>\<open>index\<close> and
  \<^verbatim>\<open>value\<close>, the last one called \<open>val\<close> here.
\<close>

record entry =
  criteria :: "jsval list"
  index :: nat
  val :: jsrec

text \<open>
  The loop of \<^verbatim>\<open>compareMultiple\<close>: the first criterion on which the two entries differ
  decides, its result negated when the order at that position is \<^verbatim>\<open>"desc"\<close>; \<open>None\<close> when
  the loop runs to its end.
\<close>

fun compareCriteria ::
  "(string \<Rightarrow> jsnum) \<Rightarrow> jsval list \<Rightarrow> jsval list \<Rightarrow> sort_order list \<Rightarrow> int option" where
  "compareCriteria s2n [] oth ords = None"
| "compareCriteria s2n (v # vs) oth ords =
     (let result = compareAscending s2n v (case oth of [] \<Rightarrow> JUndefined | w # _ \<Rightarrow> w) in
      if result \<noteq> 0 then
        Some (case ords of [] \<Rightarrow> result
              | ord # _ \<Rightarrow> result * (if ord = Desc then - 1 else 1))
      else compareCriteria s2n vs (tl oth) (tl ords))"

text \<open>\<^verbatim>\<open>compareMultiple\<close>: entries equal on every criterion keep their input order.\<close>

definition compareMultiple ::
  "(string \<Rightarrow> jsnum) \<Rightarrow> entry \<Rightarrow> entry \<Rightarrow> sort_order list \<Rightarrow> int" where
  "compareMultiple s2n object other orders =
     (case compareCriteria s2n (criteria object) (criteria other) orders of
        Some r \<Rightarrow> r
      | None \<Rightarrow> int (index object) - int (index other))"

text \<open>
  \<^verbatim>\<open>Array.prototype.sort(comparer)\<close>. The language requires a stable sort; it is modelled
  by insertion from the right, where an element moves behind another one only when the
  comparer returns a positive number for the pair. For a consistent comparer every stable
  sort gives this result (\<open>stable_sort_by_unique\<close> below); for an inconsistent one the
  language leaves the order to the implementation, and the model fixes this one.
\<close>

fun sort_insert :: "('a \<Rightarrow> 'a \<Rightarrow> int) \<Rightarrow> 'a \<Rightarrow> 'a list \<Rightarrow> 'a list" where
  "sort_insert cmp x [] = [x]"
| "sort_insert cmp x (y # ys) =
     (if cmp x y \<le> 0 then x # y # ys else y # sort_insert cmp x ys)"

definition array_sort :: "('a \<Rightarrow> 'a \<Rightarrow> int) \<Rightarrow> 'a list \<Rightarrow> 'a list" where
  "array_sort cmp xs = foldr (sort_insert cmp) xs []"

text \<open>
  \<^verbatim>\<open>baseOrderBy\<close> and \<^verbatim>\<open>baseSortBy\<close>: a new array of entries is built from the collection,
  sorted with \<^verbatim>\<open>compareMultiple\<close>, and each entry is replaced by its element. \<^verbatim>\<open>orderBy\<close>
  passes its arguments on (the collection is an array, and both the iteratees and the
  orders are non-empty arrays here).
\<close>

definition baseOrderBy ::
  "(string \<Rightarrow> jsnum) \<Rightarrow> jsrec list \<Rightarrow> (jsrec \<Rightarrow> jsval) list \<Rightarrow> sort_order list \<Rightarrow> jsrec list"
  where
  "baseOrderBy s2n collection iteratees orders =
     (let result = map (\<lambda>(i, v). \<lparr>criteria = map (\<lambda>f. f v) iteratees, index = i, val = v\<rparr>)
                       (enumerate 0 collection)
      in map val (array_sort (\<lambda>object other. compareMultiple s2n object other orders) result))"

definition orderBy ::
  "(string \<Rightarrow> jsnum) \<Rightarrow> jsrec list \<Rightarrow> (jsrec \<Rightarrow> jsval) list \<Rightarrow> sort_order list \<Rightarrow> jsrec list"
  where
  "orderBy s2n collection iteratees orders = baseOrderBy s2n collection iteratees orders"

subsection \<open>Deep equality: chai's \<^verbatim>\<open>deep.equal\<close> and lodash's \<^verbatim>\<open>isEqual\<close>\<close>

text \<open>
  Two records are deeply equal when they have the same own properties with equal values;
  the order in which the properties were written does not matter. On records of scalars
  both libraries decide this the same way.
\<close>

definition isEqual :: "jsrec \<Rightarrow> jsrec \<Rightarrow> bool" where
  "isEqual a b = list_all (\<lambda>k. map_of a k = map_of b k) (map fst a @ map fst b)"

text \<open>Two arrays are deeply equal when they are equally long and equal position by position.\<close>

definition deep_equal :: "jsrec list \<Rightarrow> jsrec list \<Rightarrow> bool" where
  "deep_equal xs ys = list_all2 isEqual xs ys"

text \<open>
  \<^verbatim>\<open>array.findIndex((item, i) => p(item, i))\<close>, started at position \<open>i\<close>: the first
  position whose element satisfies the predicate, \<open>None\<close> for the result \<^verbatim>\<open>-1\<close>.
\<close>

fun findIndex_from :: "nat \<Rightarrow> ('a \<Rightarrow> nat \<Rightarrow> bool) \<Rightarrow> 'a list \<Rightarrow> nat option" where
  "findIndex_from i p [] = None"
| "findIndex_from i p (x # xs) = (if p x i then Some i else findIndex_from (Suc i) p xs)"

definition findIndex :: "('a \<Rightarrow> nat \<Rightarrow> bool) \<Rightarrow> 'a list \<Rightarrow> nat option" where
  "findIndex p xs = findIndex_from 0 p xs"

section \<open>The order check \<^verbatim>\<open>assertSortedByKey\<close>\<close>

text \<open>\<^verbatim>\<open>norm\<close>, the normalisation of the primary key, called \<open>norm_val\<close> here.\<close>

definition norm_val :: "jsval \<Rightarrow> jsval" where
  "norm_val v =
     (if loose_eq_null v then JStr ''''
      else if typeof v = ''string'' then (case v of JStr s \<Rightarrow> JStr (toLocaleLowerCase s) | _ \<Rightarrow> v)
      else v)"

text \<open>The two iteratees and the two orders handed to \<^verbatim>\<open>orderBy\<close>.\<close>

definition iteratees :: "string \<Rightarrow> (jsrec \<Rightarrow> jsval) list" where
  "iteratees key = [\<lambda>obj. norm_val (get_prop obj key), \<lambda>obj. nullish (get_prop obj ''id'') (JNum (Fin 0))]"

definition orders :: "sort_order \<Rightarrow> sort_order list" where
  "orders order = [order, Asc]"

text \<open>
  The errors a command can end with: a failed \<^verbatim>\<open>expect\<close> (with the custom message handed to
  it, empty when there is none), a \<^verbatim>\<open>throw new Error(message)\<close>, a request that
  \<^verbatim>\<open>cy.request\<close> itself fails, and the \<^verbatim>\<open>TypeError\<close> of the language for an object that
  cannot be converted to a primitive value.
\<close>

datatype error = AssertionError string | Error string | RequestFailed | TypeError

text \<open>
  What a failing run leaves behind: the error thrown to the caller, and the entry written
  with \<^verbatim>\<open>Cypress.log\<close> (its message names the index and the key; its console properties
  are the expected and the actual element, the key and the order).
\<close>

record log_entry =
  log_name :: string
  break_index :: nat
  log_key :: string
  expected :: "jsrec option"
  actual :: "jsrec option"
  log_order :: sort_order

record outcome =
  result :: "error + unit"
  logged :: "log_entry option"
  array_after :: "jsrec list"

definition assertion_message :: "string \<Rightarrow> sort_order \<Rightarrow> string" where
  "assertion_message key order =
     ''Array should be sorted by '' @ [CHR 0x27] @ key @ [CHR 0x27] @ '' in ''
       @ order_name order @ '' order (case-insensitive for strings)''"

text \<open>
  An array read \<^verbatim>\<open>xs[i]\<close>: beyond the end it gives \<^verbatim>\<open>undefined\<close>, here \<open>None\<close>.
\<close>

definition at_index :: "'a list \<Rightarrow> nat \<Rightarrow> 'a option" where
  "at_index xs i = (if i < length xs then Some (xs ! i) else None)"

text \<open>
  Inside the \<^verbatim>\<open>catch\<close> block: the scan for the first position where the array and the
  sorted copy differ (no record is equal to \<^verbatim>\<open>undefined\<close>), and the log entry when the scan
  finds one.
\<close>

definition firstMismatchIndex :: "jsrec list \<Rightarrow> jsrec list \<Rightarrow> nat option" where
  "firstMismatchIndex array sorted_arr =
     findIndex (\<lambda>item i. \<not> (case at_index sorted_arr i of
                                 None \<Rightarrow> False
                               | Some e \<Rightarrow> isEqual item e)) array"

definition pinpoint :: "jsrec list \<Rightarrow> jsrec list \<Rightarrow> string \<Rightarrow> sort_order \<Rightarrow> log_entry option" where
  "pinpoint array sorted_arr key order =
     (case firstMismatchIndex array sorted_arr of
        None \<Rightarrow> None
      | Some i \<Rightarrow>
          Some \<lparr>log_name = ''Unordered Item'', break_index = i, log_key = key,
                expected = at_index sorted_arr i, actual = at_index array i,
                log_order = order\<rparr>)"

text \<open>
  The \<^verbatim>\<open>catch\<close> block as a whole: it logs what the scan found, if anything, and throws the
  error it caught.
\<close>

definition catch_block ::
  "error \<Rightarrow> jsrec list \<Rightarrow> jsrec list \<Rightarrow> string \<Rightarrow> sort_order \<Rightarrow> outcome" where
  "catch_block err array sorted_arr key order =
     \<lparr>result = Inl err, logged = pinpoint array sorted_arr key order, array_after = array\<rparr>"

text \<open>
  The command itself, called with an order (a caller that leaves the order out gets
  \<^verbatim>\<open>"asc"\<close>). Nothing in it writes to \<^verbatim>\<open>array\<close>: \<^verbatim>\<open>orderBy\<close> sorts an array of its own, and
  the assertion, the scan and the log only read.
\<close>

definition assertSortedByKey ::
  "(string \<Rightarrow> jsnum) \<Rightarrow> jsrec list \<Rightarrow> string \<Rightarrow> sort_order \<Rightarrow> outcome" where
  "assertSortedByKey s2n array key order =
     (let sorted_arr = orderBy s2n array (iteratees key) (orders order) in
      if deep_equal array sorted_arr
      then \<lparr>result = Inr (), logged = None, array_after = array\<rparr>
      else catch_block (AssertionError (assertion_message key order)) array sorted_arr key order)"

subsection \<open>The expected order in the words of the specification\<close>

text \<open>
  The specification describes the expected order as a stable sort of a copy of the input,
  with the normalised primary value in the given direction as major key and the id,
  ascending and \<open>0\<close> when missing, as minor key. \<open>key_compare\<close> is that two-level
  comparison, \<open>stable_sort_by\<close> a stable sort by a comparison, and \<open>expected_order\<close> their
  combination.
\<close>

definition key_compare ::
  "(string \<Rightarrow> jsnum) \<Rightarrow> string \<Rightarrow> sort_order \<Rightarrow> jsrec \<Rightarrow> jsrec \<Rightarrow> int" where
  "key_compare s2n key order a b =
     (let primary = compareAscending s2n (norm_val (get_prop a key)) (norm_val (get_prop b key)) in
      if primary \<noteq> 0 then (if order = Desc then - primary else primary)
      else compareAscending s2n (nullish (get_prop a ''id'') (JNum (Fin 0)))
                                (nullish (get_prop b ''id'') (JNum (Fin 0))))"

definition stable_sort_by :: "('a \<Rightarrow> 'a \<Rightarrow> int) \<Rightarrow> 'a list \<Rightarrow> 'a list" where
  "stable_sort_by cmp xs = array_sort cmp xs"

definition expected_order ::
  "(string \<Rightarrow> jsnum) \<Rightarrow> jsrec list \<Rightarrow> string \<Rightarrow> sort_order \<Rightarrow> jsrec list" where
  "expected_order s2n array key order = stable_sort_by (key_compare s2n key order) array"

text \<open>Two auxiliary notions for the proofs about \<^verbatim>\<open>baseOrderBy\<close>.\<close>

definition wrap :: "(jsrec \<Rightarrow> jsval) list \<Rightarrow> nat \<times> jsrec \<Rightarrow> entry" where
  "wrap its = (\<lambda>(i, v). \<lparr>criteria = map (\<lambda>f. f v) its, index = i, val = v\<rparr>)"

definition criteria_compare ::
  "(string \<Rightarrow> jsnum) \<Rightarrow> (jsrec \<Rightarrow> jsval) list \<Rightarrow> sort_order list \<Rightarrow> jsrec \<Rightarrow> jsrec \<Rightarrow> int"
  where
  "criteria_compare s2n its ords a b =
     (case compareCriteria s2n (map (\<lambda>f. f a) its) (map (\<lambda>f. f b) its) ords of
        Some r \<Rightarrow> r
      | None \<Rightarrow> 0)"

text \<open>
  Arrays whose sort field holds only strings, \<^verbatim>\<open>null\<close> or nothing, and the string such a
  field is compared by.
\<close>

definition string_keyed :: "string \<Rightarrow> jsrec list \<Rightarrow> bool" where
  "string_keyed key xs =
     list_all (\<lambda>x. loose_eq_null (get_prop x key) \<or> typeof (get_prop x key) = ''string'') xs"

definition primary_string :: "string \<Rightarrow> jsrec \<Rightarrow> string" where
  "primary_string key x = (case norm_val (get_prop x key) of JStr s \<Rightarrow> s | _ \<Rightarrow> '''')"

text \<open>
  A record is well typed for a key when its sort field holds a string, \<^verbatim>\<open>null\<close> or nothing
  and its id is a finite number or missing, as in the product catalogue sorted by title.
  For such records the two-level order of the specification is \<open>key_le\<close>: the lower-cased
  strings in the given direction, then the ids ascending.
\<close>

definition well_typed :: "string \<Rightarrow> jsrec \<Rightarrow> bool" where
  "well_typed key x =
     ((loose_eq_null (get_prop x key) \<or> typeof (get_prop x key) = ''string'')
      \<and> (case nullish (get_prop x ''id'') (JNum (Fin 0)) of JNum (Fin n) \<Rightarrow> True | _ \<Rightarrow> False))"

definition id_number :: "jsrec \<Rightarrow> rat" where
  "id_number x = (case nullish (get_prop x ''id'') (JNum (Fin 0)) of JNum (Fin n) \<Rightarrow> n | _ \<Rightarrow> 0)"

definition key_le :: "string \<Rightarrow> sort_order \<Rightarrow> jsrec \<Rightarrow> jsrec \<Rightarrow> bool" where
  "key_le key order a b =
     ((if order = Desc then primary_string key b < primary_string key a
       else primary_string key a < primary_string key b)
      \<or> (primary_string key a = primary_string key b \<and> id_number a \<le> id_number b))"

text \<open>
  A comparison is consistent on a list when, on its elements, a positive result one way
  excludes a positive result the other way and \<open>cmp x y \<le> 0\<close> is transitive.
\<close>

definition consistent_on :: "('a \<Rightarrow> 'a \<Rightarrow> int) \<Rightarrow> 'a list \<Rightarrow> bool" where
  "consistent_on cmp xs =
     ((\<forall>x \<in> set xs. \<forall>y \<in> set xs. 0 < cmp x y \<longrightarrow> cmp y x \<le> 0)
      \<and> (\<forall>x \<in> set xs. \<forall>y \<in> set xs. \<forall>z \<in> set xs.
            cmp x y \<le> 0 \<longrightarrow> cmp y z \<le> 0 \<longrightarrow> cmp x z \<le> 0))"

section \<open>Sort fields that hold arrays and objects\<close>

text \<open>
  A record of the catalogue also has fields whose value is an array or an object (its
  tags, its dimensions, its reviews). \<open>jsany\<close> adds them to the scalars: a JSON value is a
  scalar, an array of values, or an object, that is a list of named values. On such values
  a comparison of lodash can throw, so the functions of the order check are given once
  more, with the suffix \<open>_any\<close> and an error as a possible result. On records of scalars
  they are the functions above (\<open>assertSortedByKey_any_lift\<close> below).
\<close>

datatype jsany = Prim jsval | Arr "jsany list" | Obj "(string \<times> jsany) list"

type_synonym anyrec = "(string \<times> jsany) list"

definition get_prop_any :: "anyrec \<Rightarrow> string \<Rightarrow> jsany" where
  "get_prop_any obj k = (case map_of obj k of None \<Rightarrow> Prim JUndefined | Some v \<Rightarrow> v)"

text \<open>
  \<^verbatim>\<open>ToString\<close> of the language specification. The text of a number is a parameter \<open>n2s\<close>
  of the model, as the number of a text is. An array is converted by
  \<^verbatim>\<open>Array.prototype.join\<close>: the texts of its elements, separated by commas, with the empty
  text for \<^verbatim>\<open>null\<close> and \<^verbatim>\<open>undefined\<close>. An object parsed from JSON inherits
  \<^verbatim>\<open>Object.prototype.toString\<close> and \<^verbatim>\<open>valueOf\<close>: its text is \<^verbatim>\<open>[object Object]\<close>, unless it has
  a property \<^verbatim>\<open>toString\<close> of its own. That property hides the inherited method and holds a
  JSON value, which is not callable, so no method is left that returns a primitive value
  and the conversion throws a \<^verbatim>\<open>TypeError\<close> (a property \<^verbatim>\<open>valueOf\<close> of its own is skipped in
  the same way, and the inherited \<^verbatim>\<open>toString\<close> then answers).
\<close>

fun ToString :: "(jsnum \<Rightarrow> string) \<Rightarrow> jsany \<Rightarrow> error + string"
  and join :: "(jsnum \<Rightarrow> string) \<Rightarrow> jsany list \<Rightarrow> error + string"
  and element_text :: "(jsnum \<Rightarrow> string) \<Rightarrow> jsany \<Rightarrow> error + string"
where
  "ToString n2s (Prim JUndefined) = Inr ''undefined''"
| "ToString n2s (Prim JNull) = Inr ''null''"
| "ToString n2s (Prim (JBool b)) = Inr (if b then ''true'' else ''false'')"
| "ToString n2s (Prim (JNum n)) = Inr (n2s n)"
| "ToString n2s (Prim (JStr s)) = Inr s"
| "ToString n2s (Arr xs) = join n2s xs"
| "ToString n2s (Obj fs) =
     (if map_of fs ''toString'' \<noteq> None then Inl TypeError else Inr ''[object Object]'')"
| "join n2s [] = Inr ''''"
| "join n2s [x] = element_text n2s x"
| "join n2s (x # y # ys) =
     (case element_text n2s x of
        Inl e \<Rightarrow> Inl e
      | Inr s \<Rightarrow> (case join n2s (y # ys) of Inl e \<Rightarrow> Inl e | Inr t \<Rightarrow> Inr (s @ '','' @ t)))"
| "element_text n2s (Prim JUndefined) = Inr ''''"
| "element_text n2s (Prim JNull) = Inr ''''"
| "element_text n2s x = ToString n2s x"

text \<open>
  \<^verbatim>\<open>ToPrimitive\<close>, which the relational operators apply to both operands: a scalar is its
  own primitive value, and that of an array or an object is its text (their \<^verbatim>\<open>valueOf\<close>
  returns the object itself, so \<^verbatim>\<open>toString\<close> decides). \<^verbatim>\<open>ToNumber\<close> of an array or an object
  is the number of its primitive value.
\<close>

fun ToPrimitive :: "(jsnum \<Rightarrow> string) \<Rightarrow> jsany \<Rightarrow> error + jsval" where
  "ToPrimitive n2s (Prim v) = Inr v"
| "ToPrimitive n2s x = (case ToString n2s x of Inl e \<Rightarrow> Inl e | Inr s \<Rightarrow> Inr (JStr s))"


text \<open>
  \<^verbatim>\<open>a > b\<close> and \<^verbatim>\<open>a < b\<close>: the left operand is converted first, then the right one, and the
  two primitive values are compared as above.
\<close>

definition js_gt_any ::
  "(string \<Rightarrow> jsnum) \<Rightarrow> (jsnum \<Rightarrow> string) \<Rightarrow> jsany \<Rightarrow> jsany \<Rightarrow> error + bool" where
  "js_gt_any s2n n2s a b =
     (case ToPrimitive n2s a of
        Inl e \<Rightarrow> Inl e
      | Inr pa \<Rightarrow> (case ToPrimitive n2s b of Inl e \<Rightarrow> Inl e | Inr pb \<Rightarrow> Inr (js_gt s2n pa pb)))"

definition js_lt_any ::
  "(string \<Rightarrow> jsnum) \<Rightarrow> (jsnum \<Rightarrow> string) \<Rightarrow> jsany \<Rightarrow> jsany \<Rightarrow> error + bool" where
  "js_lt_any s2n n2s a b =
     (case ToPrimitive n2s a of
        Inl e \<Rightarrow> Inl e
      | Inr pa \<Rightarrow> (case ToPrimitive n2s b of Inl e \<Rightarrow> Inl e | Inr pb \<Rightarrow> Inr (js_lt s2n pa pb)))"

text \<open>
  \<^verbatim>\<open>a === b\<close> compares arrays and objects by identity. Parsing a JSON text builds a new
  object for each array and each object in it, so the field values of two records are
  never the same object: \<^verbatim>\<open>a === b\<close> is false as soon as one operand is an array or an
  object, and \<^verbatim>\<open>a === a\<close> is true of every array and object.
\<close>

fun strict_equals_any :: "jsany \<Rightarrow> jsany \<Rightarrow> bool" where
  "strict_equals_any (Prim a) (Prim b) = strict_equals a b"
| "strict_equals_any a b = False"

fun reflexive_any :: "jsany \<Rightarrow> bool" where
  "reflexive_any (Prim a) = strict_equals a a"
| "reflexive_any a = True"

text \<open>
  \<^verbatim>\<open>compareAscending(value, other)\<close> once more. The operands of \<^verbatim>\<open>||\<close> and \<^verbatim>\<open>&&\<close> are
  evaluated from left to right and only as far as needed: \<^verbatim>\<open>value > other\<close> is evaluated
  unless \<^verbatim>\<open>other\<close> is \<^verbatim>\<open>null\<close>, and \<^verbatim>\<open>value < other\<close> when the first condition is false and
  \<^verbatim>\<open>value\<close> is not \<^verbatim>\<open>null\<close>. What one of them throws is thrown by the function.
\<close>

definition compareAscending_any ::
  "(string \<Rightarrow> jsnum) \<Rightarrow> (jsnum \<Rightarrow> string) \<Rightarrow> jsany \<Rightarrow> jsany \<Rightarrow> error + int" where
  "compareAscending_any s2n n2s v other =
     (if \<not> strict_equals_any v other then
        (let valIsDefined = (v \<noteq> Prim JUndefined);
             valIsNull = (v = Prim JNull);
             valIsReflexive = reflexive_any v;
             othIsDefined = (other \<noteq> Prim JUndefined);
             othIsNull = (other = Prim JNull);
             othIsReflexive = reflexive_any other
         in
           case (if othIsNull then Inr False else js_gt_any s2n n2s v other) of
             Inl e \<Rightarrow> Inl e
           | Inr is_gt \<Rightarrow>
               if is_gt
                  \<or> (valIsNull \<and> othIsDefined \<and> othIsReflexive)
                  \<or> (\<not> valIsDefined \<and> othIsReflexive)
                  \<or> \<not> valIsReflexive
               then Inr 1
               else
                 (case (if valIsNull then Inr False else js_lt_any s2n n2s v other) of
                    Inl e \<Rightarrow> Inl e
                  | Inr is_lt \<Rightarrow>
                      if is_lt
                         \<or> (othIsNull \<and> valIsDefined \<and> valIsReflexive)
                         \<or> (\<not> othIsDefined \<and> valIsReflexive)
                         \<or> \<not> othIsReflexive
                      then Inr (- 1)
                      else Inr 0))
      else Inr 0)"

text \<open>
  The entries, the loop of \<^verbatim>\<open>compareMultiple\<close> and \<^verbatim>\<open>compareMultiple\<close> itself, as above; an
  error of a comparison ends the loop.
\<close>

record entry_any =
  criteria_any :: "jsany list"
  index_any :: nat
  val_any :: anyrec

fun compareCriteria_any ::
  "(string \<Rightarrow> jsnum) \<Rightarrow> (jsnum \<Rightarrow> string) \<Rightarrow> jsany list \<Rightarrow> jsany list \<Rightarrow> sort_order list
     \<Rightarrow> error + int option" where
  "compareCriteria_any s2n n2s [] oth ords = Inr None"
| "compareCriteria_any s2n n2s (v # vs) oth ords =
     (case compareAscending_any s2n n2s v (case oth of [] \<Rightarrow> Prim JUndefined | w # _ \<Rightarrow> w) of
        Inl e \<Rightarrow> Inl e
      | Inr r \<Rightarrow>
          if r \<noteq> 0 then
            Inr (Some (case ords of [] \<Rightarrow> r
                       | ord # _ \<Rightarrow> r * (if ord = Desc then - 1 else 1)))
          else compareCriteria_any s2n n2s vs (tl oth) (tl ords))"

definition compareMultiple_any ::
  "(string \<Rightarrow> jsnum) \<Rightarrow> (jsnum \<Rightarrow> string) \<Rightarrow> entry_any \<Rightarrow> entry_any \<Rightarrow> sort_order list
     \<Rightarrow> error + int" where
  "compareMultiple_any s2n n2s object other ords =
     (case compareCriteria_any s2n n2s (criteria_any object) (criteria_any other) ords of
        Inl e \<Rightarrow> Inl e
      | Inr (Some r) \<Rightarrow> Inr r
      | Inr None \<Rightarrow> Inr (int (index_any object) - int (index_any other)))"

text \<open>
  \<^verbatim>\<open>Array.prototype.sort(comparer)\<close> with a comparer that can throw: the insertion from the
  right as above, ended by the first error of the comparer. Every element of an array of
  two or more is compared at least once, here as in every sort by comparison.
\<close>

fun sort_insert_any :: "('a \<Rightarrow> 'a \<Rightarrow> error + int) \<Rightarrow> 'a \<Rightarrow> 'a list \<Rightarrow> error + 'a list" where
  "sort_insert_any cmp x [] = Inr [x]"
| "sort_insert_any cmp x (y # ys) =
     (case cmp x y of
        Inl e \<Rightarrow> Inl e
      | Inr r \<Rightarrow>
          if r \<le> 0 then Inr (x # y # ys)
          else (case sort_insert_any cmp x ys of Inl e \<Rightarrow> Inl e | Inr zs \<Rightarrow> Inr (y # zs)))"

fun array_sort_any :: "('a \<Rightarrow> 'a \<Rightarrow> error + int) \<Rightarrow> 'a list \<Rightarrow> error + 'a list" where
  "array_sort_any cmp [] = Inr []"
| "array_sort_any cmp (x # xs) =
     (case array_sort_any cmp xs of Inl e \<Rightarrow> Inl e | Inr ys \<Rightarrow> sort_insert_any cmp x ys)"

definition baseOrderBy_any ::
  "(string \<Rightarrow> jsnum) \<Rightarrow> (jsnum \<Rightarrow> string) \<Rightarrow> anyrec list \<Rightarrow> (anyrec \<Rightarrow> jsany) list
     \<Rightarrow> sort_order list \<Rightarrow> error + anyrec list" where
  "baseOrderBy_any s2n n2s collection its ords =
     (let entries = map (\<lambda>(i, v). \<lparr>criteria_any = map (\<lambda>f. f v) its, index_any = i,
                                   val_any = v\<rparr>)
                       (enumerate 0 collection)
      in case array_sort_any (\<lambda>object other. compareMultiple_any s2n n2s object other ords)
                entries of
           Inl e \<Rightarrow> Inl e
         | Inr sorted_entries \<Rightarrow> Inr (map val_any sorted_entries))"

definition orderBy_any ::
  "(string \<Rightarrow> jsnum) \<Rightarrow> (jsnum \<Rightarrow> string) \<Rightarrow> anyrec list \<Rightarrow> (anyrec \<Rightarrow> jsany) list
     \<Rightarrow> sort_order list \<Rightarrow> error + anyrec list" where
  "orderBy_any s2n n2s collection its ords = baseOrderBy_any s2n n2s collection its ords"

text \<open>
  Deep equality of values: scalars are equal as values, arrays position by position,
  objects when they have the same properties with deeply equal values. A property is read
  with \<open>map_of\<close>, so only the first entry of a name counts.
\<close>

fun deep_eq :: "jsany \<Rightarrow> jsany \<Rightarrow> bool"
  and fields_eq :: "anyrec \<Rightarrow> anyrec \<Rightarrow> anyrec \<Rightarrow> bool"
where
  "deep_eq (Prim a) (Prim b) = (a = b)"
| "deep_eq (Arr xs) (Arr ys) = list_all2 deep_eq xs ys"
| "deep_eq (Obj fs) (Obj gs) =
     (fields_eq fs fs gs \<and> list_all (\<lambda>k. map_of fs k \<noteq> None) (map fst gs))"
| "deep_eq a b = False"
| "fields_eq own [] gs = True"
| "fields_eq own ((k, v) # rest) gs =
     ((if map_of own k = Some v
       then (case map_of gs k of None \<Rightarrow> False | Some w \<Rightarrow> deep_eq v w)
       else True)
      \<and> fields_eq own rest gs)"

definition isEqual_any :: "anyrec \<Rightarrow> anyrec \<Rightarrow> bool" where
  "isEqual_any a b = deep_eq (Obj a) (Obj b)"

definition deep_equal_any :: "anyrec list \<Rightarrow> anyrec list \<Rightarrow> bool" where
  "deep_equal_any xs ys = list_all2 isEqual_any xs ys"

text \<open>
  \<^verbatim>\<open>norm\<close> on any value: \<^verbatim>\<open>typeof\<close> of an array or an object is \<^verbatim>\<open>"object"\<close>, and neither is
  loosely equal to \<^verbatim>\<open>null\<close>. Then the two iteratees.
\<close>

fun typeof_any :: "jsany \<Rightarrow> string" where
  "typeof_any (Prim v) = typeof v"
| "typeof_any (Arr xs) = ''object''"
| "typeof_any (Obj fs) = ''object''"

definition loose_eq_null_any :: "jsany \<Rightarrow> bool" where
  "loose_eq_null_any v = (v = Prim JNull \<or> v = Prim JUndefined)"

definition norm_any :: "jsany \<Rightarrow> jsany" where
  "norm_any v =
     (if loose_eq_null_any v then Prim (JStr '''')
      else if typeof_any v = ''string''
      then (case v of Prim (JStr s) \<Rightarrow> Prim (JStr (toLocaleLowerCase s)) | _ \<Rightarrow> v)
      else v)"

definition nullish_any :: "jsany \<Rightarrow> jsany \<Rightarrow> jsany" where
  "nullish_any a b = (if a = Prim JNull \<or> a = Prim JUndefined then b else a)"

definition iteratees_any :: "string \<Rightarrow> (anyrec \<Rightarrow> jsany) list" where
  "iteratees_any key =
     [\<lambda>obj. norm_any (get_prop_any obj key),
      \<lambda>obj. nullish_any (get_prop_any obj ''id'') (Prim (JNum (Fin 0)))]"

text \<open>The log entry, the outcome and the \<^verbatim>\<open>catch\<close> block, as above.\<close>

record log_entry_any =
  log_name_any :: string
  break_index_any :: nat
  log_key_any :: string
  expected_any :: "anyrec option"
  actual_any :: "anyrec option"
  log_order_any :: sort_order

record outcome_any =
  result_any :: "error + unit"
  logged_any :: "log_entry_any option"
  array_after_any :: "anyrec list"

definition firstMismatchIndex_any :: "anyrec list \<Rightarrow> anyrec list \<Rightarrow> nat option" where
  "firstMismatchIndex_any array sorted_arr =
     findIndex (\<lambda>item i. \<not> (case at_index sorted_arr i of
                                 None \<Rightarrow> False
                               | Some e \<Rightarrow> isEqual_any item e)) array"

definition pinpoint_any ::
  "anyrec list \<Rightarrow> anyrec list \<Rightarrow> string \<Rightarrow> sort_order \<Rightarrow> log_entry_any option" where
  "pinpoint_any array sorted_arr key order =
     (case firstMismatchIndex_any array sorted_arr of
        None \<Rightarrow> None
      | Some i \<Rightarrow>
          Some \<lparr>log_name_any = ''Unordered Item'', break_index_any = i, log_key_any = key,
                expected_any = at_index sorted_arr i, actual_any = at_index array i,
                log_order_any = order\<rparr>)"

definition catch_block_any ::
  "error \<Rightarrow> anyrec list \<Rightarrow> anyrec list \<Rightarrow> string \<Rightarrow> sort_order \<Rightarrow> outcome_any" where
  "catch_block_any err array sorted_arr key order =
     \<lparr>result_any = Inl err, logged_any = pinpoint_any array sorted_arr key order,
      array_after_any = array\<rparr>"

text \<open>
  The command. The call of \<^verbatim>\<open>orderBy\<close> stands before the \<^verbatim>\<open>try\<close> block: an error thrown by
  a comparison is not caught, it ends the command without a log entry.
\<close>

definition assertSortedByKey_any ::
  "(string \<Rightarrow> jsnum) \<Rightarrow> (jsnum \<Rightarrow> string) \<Rightarrow> anyrec list \<Rightarrow> string \<Rightarrow> sort_order
     \<Rightarrow> outcome_any" where
  "assertSortedByKey_any s2n n2s array key order =
     (case orderBy_any s2n n2s array (iteratees_any key) (orders order) of
        Inl e \<Rightarrow> \<lparr>result_any = Inl e, logged_any = None, array_after_any = array\<rparr>
      | Inr sorted_arr \<Rightarrow>
          if deep_equal_any array sorted_arr
          then \<lparr>result_any = Inr (), logged_any = None, array_after_any = array\<rparr>
          else catch_block_any (AssertionError (assertion_message key order)) array sorted_arr
                 key order)"

text \<open>
  Auxiliary notions for the proofs: a value converts when it has a primitive value; the
  sort field and the id of a record convert; an entry as \<^verbatim>\<open>baseOrderBy\<close> builds it; and
  the records, entries, log entries and outcomes of the sections above read as values of
  the types of this section.
\<close>

definition converts :: "(jsnum \<Rightarrow> string) \<Rightarrow> jsany \<Rightarrow> bool" where
  "converts n2s v = (case ToPrimitive n2s v of Inl e \<Rightarrow> False | Inr p \<Rightarrow> True)"







section \<open>The token cache and the request helpers\<close>

text \<open>
  A request as handed to \<^verbatim>\<open>cy.request\<close> (its \<^verbatim>\<open>method\<close> is the field \<open>http_method\<close>), and
  the response it yields. The body of a login or refresh response is read at its two token
  fields only: a token is a string, as the interface declares, and the field is \<open>None\<close>
  when the body has no such property or holds \<^verbatim>\<open>null\<close> there. The other bodies are JSON
  objects.
\<close>

record request =
  http_method :: string
  url :: string
  headers :: "(string \<times> string) list"
  body :: "jsrec option"

record 'b response =
  status :: nat
  resp_body :: 'b

record token_body =
  body_accessToken :: "string option"
  body_refreshToken :: "string option"

text \<open>
  The two module variables \<^verbatim>\<open>accessToken\<close> and \<^verbatim>\<open>refreshToken\<close>, of type
  \<^verbatim>\<open>string | null\<close>, both \<^verbatim>\<open>null\<close> (here \<open>None\<close>) when the module is loaded. \<open>None\<close> also
  stands for the \<^verbatim>\<open>undefined\<close> that an assignment from a response body without the token
  leaves in the variable.
\<close>

record token_cache =
  accessToken :: "string option"
  refreshToken :: "string option"

definition initial_cache :: token_cache where
  "initial_cache = \<lparr>accessToken = None, refreshToken = None\<rparr>"

text \<open>
  A run of a command: what it returns or throws, the cache it leaves, and the requests it
  has issued, in order.
\<close>

record 'a run =
  returned :: "error + 'a"
  cache :: token_cache
  sent :: "request list"

text \<open>
  Truthiness of an optional string (\<^verbatim>\<open>null\<close>, \<^verbatim>\<open>undefined\<close> and \<^verbatim>\<open>""\<close> are falsy), the
  operator \<^verbatim>\<open>a || b\<close>, the text a template literal inserts for such a value, and the JSON
  value it becomes in a request body.
\<close>

definition falsy :: "string option \<Rightarrow> bool" where
  "falsy t = (t = None \<or> t = Some '''')"

definition js_or :: "string option \<Rightarrow> string option \<Rightarrow> string option" where
  "js_or a b = (if falsy a then b else a)"

fun template_text :: "string option \<Rightarrow> string" where
  "template_text None = ''null''"
| "template_text (Some s) = s"

fun token_value :: "string option \<Rightarrow> jsval" where
  "token_value None = JNull"
| "token_value (Some s) = JStr s"

text \<open>The default \<^verbatim>\<open>expiresInMins = 30\<close> of \<^verbatim>\<open>loginUser\<close> and \<^verbatim>\<open>refreshSession\<close>.\<close>

definition expires_default :: "jsnum option \<Rightarrow> jsnum" where
  "expires_default e = (case e of None \<Rightarrow> Fin 30 | Some n \<Rightarrow> n)"

text \<open>The long dash of the two error messages, as its three UTF-8 bytes.\<close>

definition em_dash :: string where
  "em_dash = [CHR 0xE2, CHR 0x80, CHR 0x94]"

text \<open>
  The \<^verbatim>\<open>.then\<close> callback shared by \<^verbatim>\<open>loginUser\<close> and \<^verbatim>\<open>refreshSession\<close>: the status is
  asserted to be 200, then both variables are assigned from the response body, unchecked,
  and returned.
\<close>

definition store_tokens ::
  "request \<Rightarrow> token_cache \<Rightarrow> error + token_body response \<Rightarrow> token_cache run" where
  "store_tokens req st answer =
     (case answer of
        Inl e \<Rightarrow> \<lparr>returned = Inl e, cache = st, sent = [req]\<rparr>
      | Inr resp \<Rightarrow>
          if status resp \<noteq> 200
          then \<lparr>returned = Inl (AssertionError ''''), cache = st, sent = [req]\<rparr>
          else (let st' = \<lparr>accessToken = body_accessToken (resp_body resp),
                           refreshToken = body_refreshToken (resp_body resp)\<rparr>
                in \<lparr>returned = Inr st', cache = st', sent = [req]\<rparr>))"

definition loginUser ::
  "(request \<Rightarrow> error + token_body response) \<Rightarrow> string \<Rightarrow> string \<Rightarrow> jsnum option
     \<Rightarrow> token_cache \<Rightarrow> token_cache run" where
  "loginUser cy_request username password expiresInMins st =
     (let req = \<lparr>http_method = ''POST'', url = ''/auth/login'',
                 headers = [(''Content-Type'', ''application/json'')],
                 body = Some [(''username'', JStr username), (''password'', JStr password),
                              (''expiresInMins'', JNum (expires_default expiresInMins))]\<rparr>
      in store_tokens req st (cy_request req))"

definition getCurrentUser ::
  "(request \<Rightarrow> error + jsrec response) \<Rightarrow> token_cache \<Rightarrow> jsrec run" where
  "getCurrentUser cy_request st =
     (if falsy (accessToken st)
      then \<lparr>returned = Inl (Error (''No access token '' @ em_dash @ '' call cy.loginUser() first'')),
            cache = st, sent = []\<rparr>
      else
        (let req = \<lparr>http_method = ''GET'', url = ''/auth/me'',
                    headers = [(''Authorization'', ''Bearer '' @ template_text (accessToken st))],
                    body = None\<rparr>
         in case cy_request req of
              Inl e \<Rightarrow> \<lparr>returned = Inl e, cache = st, sent = [req]\<rparr>
            | Inr resp \<Rightarrow>
                if status resp \<noteq> 200
                then \<lparr>returned = Inl (AssertionError ''''), cache = st, sent = [req]\<rparr>
                else \<lparr>returned = Inr (resp_body resp), cache = st, sent = [req]\<rparr>))"

definition refreshSession ::
  "(request \<Rightarrow> error + token_body response) \<Rightarrow> string option \<Rightarrow> jsnum option
     \<Rightarrow> token_cache \<Rightarrow> token_cache run" where
  "refreshSession cy_request providedRefreshToken expiresInMins st =
     (let tokenToUse = js_or providedRefreshToken (refreshToken st) in
      if falsy tokenToUse
      then \<lparr>returned = Inl (Error (''No refresh token '' @ em_dash @ '' call cy.loginUser() first'')),
            cache = st, sent = []\<rparr>
      else
        (let req = \<lparr>http_method = ''POST'', url = ''/auth/refresh'',
                    headers = [(''Content-Type'', ''application/json'')],
                    body = Some [(''refreshToken'', token_value tokenToUse),
                                 (''expiresInMins'', JNum (expires_default expiresInMins))]\<rparr>
         in store_tokens req st (cy_request req)))"

text \<open>
  \<^verbatim>\<open>getProductByCategory\<close>: the interface declares a \<^verbatim>\<open>category\<close> argument, the callback
  registered for the command takes none.
\<close>

definition getProductByCategory ::
  "(request \<Rightarrow> error + jsrec response) \<Rightarrow> string \<Rightarrow> token_cache \<Rightarrow> jsrec response run" where
  "getProductByCategory cy_request category st =
     (let req = \<lparr>http_method = ''GET'', url = ''/products/category/smartphones'',
                 headers = [], body = None\<rparr>
      in \<lparr>returned = cy_request req, cache = st, sent = [req]\<rparr>)"

text \<open>
  The three commands that mention the two variables, and \<^verbatim>\<open>getProductByCategory\<close> as one of
  the request helpers, none of which does. Each command runs against the answers the
  service gives at that moment; a session is a sequence of such runs.
\<close>

datatype command =
    LoginUser string string "jsnum option"
  | GetCurrentUser
  | RefreshSession "string option" "jsnum option"
  | GetProductByCategory string

record service =
  auth_service :: "request \<Rightarrow> error + token_body response"
  api_service :: "request \<Rightarrow> error + jsrec response"

fun exec :: "service \<Rightarrow> command \<Rightarrow> token_cache \<Rightarrow> token_cache" where
  "exec sv (LoginUser u p e) st = cache (loginUser (auth_service sv) u p e st)"
| "exec sv GetCurrentUser st = cache (getCurrentUser (api_service sv) st)"
| "exec sv (RefreshSession t e) st = cache (refreshSession (auth_service sv) t e st)"
| "exec sv (GetProductByCategory c) st = cache (getProductByCategory (api_service sv) c st)"

fun session :: "(service \<times> command) list \<Rightarrow> token_cache \<Rightarrow> token_cache" where
  "session [] st = st"
| "session ((sv, c) # rest) st = session rest (exec sv c st)"

text \<open>
  A service carries tokens when each of its answers with status 200 has both tokens in
  its body, each a non-empty string: what the tests \<^verbatim>\<open>!accessToken\<close> and \<^verbatim>\<open>!tokenToUse\<close> of
  the helpers take for a token.
\<close>

definition carries_tokens :: "(request \<Rightarrow> error + token_body response) \<Rightarrow> bool" where
  "carries_tokens cy_auth =
     (\<forall>req resp. cy_auth req = Inr resp \<longrightarrow> status resp = 200 \<longrightarrow>
        \<not> falsy (body_accessToken (resp_body resp))
        \<and> \<not> falsy (body_refreshToken (resp_body resp)))"

section \<open>The literal inputs of the scenarios\<close>

text \<open>
  The arrays the specification names in its testable properties, two records with a
  \<^verbatim>\<open>null\<close> and a string title, and a string conversion that reads no string as a number,
  for evaluating the commands on them.
\<close>

definition zeta_alpha :: "jsrec list" where
  "zeta_alpha = [[(''id'', JNum (Fin 1)), (''title'', JStr ''Zeta'')],
                 [(''id'', JNum (Fin 2)), (''title'', JStr ''alpha'')]]"

definition banana_apple :: "jsrec list" where
  "banana_apple = [[(''title'', JStr ''Banana'')], [(''title'', JStr ''apple'')]]"

definition apple_banana :: "jsrec list" where
  "apple_banana = [[(''title'', JStr ''apple'')], [(''title'', JStr ''Banana'')]]"

definition tie_5_3 :: "jsrec list" where
  "tie_5_3 = [[(''id'', JNum (Fin 5)), (''title'', JStr ''Lamp'')],
              [(''id'', JNum (Fin 3)), (''title'', JStr ''Lamp'')]]"

definition tie_3_5 :: "jsrec list" where
  "tie_3_5 = [[(''id'', JNum (Fin 3)), (''title'', JStr ''Lamp'')],
              [(''id'', JNum (Fin 5)), (''title'', JStr ''Lamp'')]]"

definition no_number :: "string \<Rightarrow> jsnum" where
  "no_number s = NaN"

definition null_title :: jsrec where
  "null_title = [(''id'', JNum (Fin 7)), (''title'', JNull)]"

definition apple :: jsrec where
  "apple = [(''id'', JNum (Fin 4)), (''title'', JStr ''Apple'')]"

text \<open>
  A service that is unreachable, one that answers every request with status 200 and a
  fresh pair of tokens, and a cache as a login leaves it.
\<close>

definition offline :: "request \<Rightarrow> error + jsrec response" where
  "offline req = Inl RequestFailed"

definition fresh_tokens :: "request \<Rightarrow> error + token_body response" where
  "fresh_tokens req =
     Inr \<lparr>status = 200,
          resp_body = \<lparr>body_accessToken = Some ''access-2'',
                       body_refreshToken = Some ''refresh-2''\<rparr>\<rparr>"

definition logged_in :: token_cache where
  "logged_in = \<lparr>accessToken = Some ''access-1'', refreshToken = Some ''refresh-1''\<rparr>"

text \<open>
  An authentication service that is unreachable, and one that answers every request with
  status 200 and a body without tokens.
\<close>

definition offline_auth :: "request \<Rightarrow> error + token_body response" where
  "offline_auth req = Inl RequestFailed"

definition tokenless :: "request \<Rightarrow> error + token_body response" where
  "tokenless req =
     Inr \<lparr>status = 200, resp_body = \<lparr>body_accessToken = None, body_refreshToken = None\<rparr>\<rparr>"




section \<open>Properties of the library models\<close>

subsection \<open>Deep equality\<close>

lemma isEqual_iff: "isEqual a b \<longleftrightarrow> map_of a = map_of b"
proof
  assume h: "isEqual a b"
  show "map_of a = map_of b"
  proof
    fix k
    show "map_of a k = map_of b k"
    proof (cases "k \<in> fst ` set a \<union> fst ` set b")
      case True
      with h show ?thesis by (auto simp: isEqual_def list_all_iff)
    next
      case False
      then have "map_of a k = None" "map_of b k = None"
        by (simp_all add: map_of_eq_None_iff)
      then show ?thesis by simp
    qed
  qed
next
  assume "map_of a = map_of b"
  then show "isEqual a b" by (simp add: isEqual_def list_all_iff)
qed

lemma isEqual_refl: "isEqual a a"
  by (simp add: isEqual_iff)

lemma isEqual_get_prop: "isEqual a b \<Longrightarrow> get_prop a k = get_prop b k"
  by (simp add: isEqual_iff get_prop_def)

lemma deep_equal_refl: "deep_equal xs xs"
  by (simp add: deep_equal_def list_all2_refl isEqual_refl)

lemma deep_equal_length: "deep_equal xs ys \<Longrightarrow> length xs = length ys"
  by (simp add: deep_equal_def list_all2_lengthD)

subsection \<open>Sorting and \<^verbatim>\<open>orderBy\<close>\<close>

lemma mset_sort_insert: "mset (sort_insert cmp x xs) = add_mset x (mset xs)"
  by (induction xs) auto

lemma mset_array_sort: "mset (array_sort cmp xs) = mset xs"
  by (induction xs) (auto simp: array_sort_def mset_sort_insert)

lemma set_array_sort: "set (array_sort cmp xs) = set xs"
  by (metis mset_array_sort set_mset_mset)

lemma length_array_sort: "length (array_sort cmp xs) = length xs"
  by (metis mset_array_sort size_mset)

lemma array_sort_Cons: "array_sort cmp (x # xs) = sort_insert cmp x (array_sort cmp xs)"
  by (simp add: array_sort_def)

lemma array_sort_Nil: "array_sort cmp [] = []"
  by (simp add: array_sort_def)

lemma map_sort_insert:
  "(\<And>e. e \<in> set es \<Longrightarrow> (cmp1 x e \<le> 0) = (cmp2 (f x) (f e) \<le> 0)) \<Longrightarrow>
   map f (sort_insert cmp1 x es) = sort_insert cmp2 (f x) (map f es)"
  by (induction es) auto

lemma set_sort_insert: "set (sort_insert cmp x ys) = insert x (set ys)"
  by (metis mset_sort_insert set_mset_add_mset_insert set_mset_mset)

lemma sorted_wrt_sort_insert:
  assumes "sorted_wrt R ys"
    and "\<And>y. y \<in> set ys \<Longrightarrow> cmp x y \<le> 0 \<Longrightarrow> R x y"
    and "\<And>y. y \<in> set ys \<Longrightarrow> 0 < cmp x y \<Longrightarrow> R y x"
    and "\<And>y z. y \<in> set ys \<Longrightarrow> z \<in> set ys \<Longrightarrow> R x y \<Longrightarrow> R y z \<Longrightarrow> R x z"
  shows "sorted_wrt R (sort_insert cmp x ys)"
  using assms
proof (induction ys)
  case Nil
  then show ?case by simp
next
  case (Cons y ys)
  from Cons.prems(1) have sorted_tail: "sorted_wrt R ys" and head: "\<forall>z \<in> set ys. R y z"
    by simp_all
  show ?case
  proof (cases "cmp x y \<le> 0")
    case True
    then have xy: "R x y" using Cons.prems(2) [of y] by simp
    have "R x z" if "z \<in> set ys" for z
    proof -
      from head that have "R y z" by simp
      with xy that show ?thesis using Cons.prems(4) [of y z] by simp
    qed
    with True xy Cons.prems(1) show ?thesis by simp
  next
    case False
    then have yx: "R y x" using Cons.prems(3) [of y] by simp
    have "sorted_wrt R (sort_insert cmp x ys)"
    proof (rule Cons.IH [OF sorted_tail])
      show "R x z" if "z \<in> set ys" "cmp x z \<le> 0" for z
        using that Cons.prems(2) [of z] by simp
      show "R z x" if "z \<in> set ys" "0 < cmp x z" for z
        using that Cons.prems(3) [of z] by simp
      show "R x w" if "z \<in> set ys" "w \<in> set ys" "R x z" "R z w" for z w
        using that Cons.prems(4) [of z w] by simp
    qed
    with False yx head show ?thesis
      by (simp add: set_sort_insert)
  qed
qed

lemma sorted_wrt_array_sort:
  assumes le: "\<And>x y. x \<in> set xs \<Longrightarrow> y \<in> set xs \<Longrightarrow> cmp x y \<le> 0 \<Longrightarrow> R x y"
    and gt: "\<And>x y. x \<in> set xs \<Longrightarrow> y \<in> set xs \<Longrightarrow> 0 < cmp x y \<Longrightarrow> R y x"
    and tr: "\<And>x y z. x \<in> set xs \<Longrightarrow> y \<in> set xs \<Longrightarrow> z \<in> set xs \<Longrightarrow> R x y \<Longrightarrow> R y z \<Longrightarrow> R x z"
  shows "sorted_wrt R (array_sort cmp xs)"
  using assms
proof (induction xs)
  case Nil
  show ?case by (simp add: array_sort_Nil)
next
  case (Cons x xs)
  have tail: "sorted_wrt R (array_sort cmp xs)"
  proof (rule Cons.IH)
    show "R a b" if "a \<in> set xs" "b \<in> set xs" "cmp a b \<le> 0" for a b
      using that Cons.prems(1) [of a b] by simp
    show "R b a" if "a \<in> set xs" "b \<in> set xs" "0 < cmp a b" for a b
      using that Cons.prems(2) [of a b] by simp
    show "R a c" if "a \<in> set xs" "b \<in> set xs" "c \<in> set xs" "R a b" "R b c" for a b c
      using that Cons.prems(3) [of a b c] by simp
  qed
  show ?case
    unfolding array_sort_Cons
  proof (rule sorted_wrt_sort_insert [OF tail])
    show "R x y" if "y \<in> set (array_sort cmp xs)" "cmp x y \<le> 0" for y
      using that Cons.prems(1) [of x y] by (simp add: set_array_sort)
    show "R y x" if "y \<in> set (array_sort cmp xs)" "0 < cmp x y" for y
      using that Cons.prems(2) [of x y] by (simp add: set_array_sort)
    show "R x z" if "y \<in> set (array_sort cmp xs)" "z \<in> set (array_sort cmp xs)" "R x y" "R y z"
      for y z
      using that Cons.prems(3) [of x y z] by (simp add: set_array_sort)
  qed
qed

lemma val_wrap: "val (wrap its (i, v)) = v"
  by (simp add: wrap_def)

lemma compareMultiple_wrap:
  "i < j \<Longrightarrow>
   (compareMultiple s2n (wrap its (i, a)) (wrap its (j, b)) ords \<le> 0)
     = (criteria_compare s2n its ords a b \<le> 0)"
  by (simp add: compareMultiple_def wrap_def criteria_compare_def split: option.splits)

lemma sorted_entries:
  "map val (array_sort (\<lambda>x y. compareMultiple s2n x y ords) (map (wrap its) (enumerate n xs)))
     = array_sort (criteria_compare s2n its ords) xs"
proof (induction xs arbitrary: n)
  case Nil
  then show ?case by (simp add: array_sort_Nil)
next
  case (Cons x xs)
  let ?cmp = "\<lambda>x y. compareMultiple s2n x y ords"
  let ?tail = "array_sort ?cmp (map (wrap its) (enumerate (Suc n) xs))"
  have later: "\<And>e. e \<in> set ?tail \<Longrightarrow>
      (?cmp (wrap its (n, x)) e \<le> 0) = (criteria_compare s2n its ords (val (wrap its (n, x))) (val e) \<le> 0)"
  proof -
    fix e assume "e \<in> set ?tail"
    then have "e \<in> set (map (wrap its) (enumerate (Suc n) xs))"
      by (simp add: set_array_sort)
    then obtain j b where e: "e = wrap its (j, b)" and "(j, b) \<in> set (enumerate (Suc n) xs)"
      by auto
    then have "n < j" by (auto simp: in_set_enumerate_eq)
    then show "(?cmp (wrap its (n, x)) e \<le> 0) = (criteria_compare s2n its ords (val (wrap its (n, x))) (val e) \<le> 0)"
      unfolding e using compareMultiple_wrap [of n j s2n its x b ords] by (simp add: val_wrap)
  qed
  have "map val (array_sort ?cmp (map (wrap its) (enumerate n (x # xs))))
          = map val (sort_insert ?cmp (wrap its (n, x)) ?tail)"
    by (simp add: array_sort_Cons)
  also have "\<dots> = sort_insert (criteria_compare s2n its ords) (val (wrap its (n, x))) (map val ?tail)"
    by (rule map_sort_insert) (rule later)
  also have "\<dots> = sort_insert (criteria_compare s2n its ords) x (array_sort (criteria_compare s2n its ords) xs)"
    by (simp add: Cons.IH val_wrap)
  finally show ?case by (simp add: array_sort_Cons)
qed

lemma orderBy_stable:
  "orderBy s2n xs its ords = array_sort (criteria_compare s2n its ords) xs"
  unfolding orderBy_def baseOrderBy_def Let_def
  using sorted_entries [of s2n ords its 0 xs] by (simp add: wrap_def)

lemma length_orderBy: "length (orderBy s2n xs its ords) = length xs"
  by (simp add: orderBy_stable length_array_sort)

lemma mset_orderBy: "mset (orderBy s2n xs its ords) = mset xs"
  by (simp add: orderBy_stable mset_array_sort)

lemma criteria_compare_key_compare:
  "criteria_compare s2n (iteratees key) (orders order) = key_compare s2n key order"
  by (intro ext) (simp add: criteria_compare_def iteratees_def orders_def key_compare_def Let_def)

lemma orderBy_expected_order:
  "orderBy s2n array (iteratees key) (orders order) = expected_order s2n array key order"
  by (simp add: orderBy_stable criteria_compare_key_compare expected_order_def stable_sort_by_def)

lemma assertSortedByKey_result:
  "result (assertSortedByKey s2n array key order) =
     (if deep_equal array (expected_order s2n array key order) then Inr ()
      else Inl (AssertionError (assertion_message key order)))"
  by (simp add: assertSortedByKey_def Let_def catch_block_def orderBy_expected_order)

lemma expected_order_Nil: "expected_order s2n [] key order = []"
  by (simp add: expected_order_def stable_sort_by_def array_sort_Nil)

lemma expected_order_single: "expected_order s2n [x] key order = [x]"
  by (simp add: expected_order_def stable_sort_by_def array_sort_Cons array_sort_Nil)

lemma expected_order_pair:
  "expected_order s2n [a, b] key order =
     (if key_compare s2n key order a b \<le> 0 then [a, b] else [b, a])"
  by (simp add: expected_order_def stable_sort_by_def array_sort_def)

lemma deep_equal_swap: "deep_equal [a, b] [b, a] \<longleftrightarrow> isEqual a b"
  by (auto simp: deep_equal_def isEqual_iff)

lemma assertSortedByKey_pair:
  "result (assertSortedByKey s2n [a, b] key order) = Inr ()
     \<longleftrightarrow> key_compare s2n key order a b \<le> 0 \<or> isEqual a b"
  by (simp add: assertSortedByKey_result expected_order_pair deep_equal_refl deep_equal_swap)

subsection \<open>The scan for the first mismatch\<close>

lemma findIndex_from_None:
  "findIndex_from n p xs = None \<longleftrightarrow> (\<forall>i < length xs. \<not> p (xs ! i) (n + i))"
proof (induction xs arbitrary: n)
  case Nil
  then show ?case by simp
next
  case (Cons x xs)
  show ?case
    by (auto simp: Cons.IH less_Suc_eq_0_disj)
qed

lemma findIndex_from_Some:
  "findIndex_from n p xs = Some k \<longleftrightarrow>
     (\<exists>i < length xs. k = n + i \<and> p (xs ! i) (n + i) \<and> (\<forall>j < i. \<not> p (xs ! j) (n + j)))"
proof (induction xs arbitrary: n)
  case Nil
  then show ?case by simp
next
  case (Cons x xs)
  show ?case
  proof (cases "p x n")
    case True
    then show ?thesis by (auto intro: exI [of _ 0]) (metis add_0_iff gr_zeroI nth_Cons_0)
  next
    case False
    then show ?thesis
      apply (simp add: Cons.IH)
      apply (rule iffI)
       apply (elim exE conjE)
      subgoal for i
        by (rule exI [of _ "Suc i"]) (auto simp: less_Suc_eq_0_disj)
      apply (elim exE conjE)
      subgoal for i
        by (cases i) (auto simp: less_Suc_eq_0_disj)
      done
  qed
qed

lemma firstMismatchIndex_Some:
  "firstMismatchIndex array sorted_arr = Some i \<longleftrightarrow>
     i < length array
     \<and> \<not> (i < length sorted_arr \<and> isEqual (array ! i) (sorted_arr ! i))
     \<and> (\<forall>j < i. j < length sorted_arr \<and> isEqual (array ! j) (sorted_arr ! j))"
  by (auto simp: firstMismatchIndex_def findIndex_def findIndex_from_Some at_index_def
      split: if_splits)

lemma firstMismatchIndex_None:
  "firstMismatchIndex array sorted_arr = None \<longleftrightarrow>
     (\<forall>i < length array. i < length sorted_arr \<and> isEqual (array ! i) (sorted_arr ! i))"
  by (auto simp: firstMismatchIndex_def findIndex_def findIndex_from_None at_index_def
      split: if_splits)

lemma deep_equal_nth:
  "deep_equal xs ys \<longleftrightarrow> length xs = length ys \<and> (\<forall>i < length xs. isEqual (xs ! i) (ys ! i))"
  by (simp add: deep_equal_def list_all2_conv_all_nth)

lemma mismatch_found:
  assumes len: "length sorted_arr = length array"
    and k: "k < length array" "\<not> isEqual (array ! k) (sorted_arr ! k)"
  shows "\<exists>i \<le> k. firstMismatchIndex array sorted_arr = Some i"
proof (cases "firstMismatchIndex array sorted_arr")
  case None
  with k len show ?thesis by (auto simp: firstMismatchIndex_None)
next
  case (Some i)
  then have "\<forall>j < i. isEqual (array ! j) (sorted_arr ! j)"
    by (simp add: firstMismatchIndex_Some)
  with k have "\<not> k < i" by blast
  with Some show ?thesis by auto
qed

subsection \<open>Normalisation and comparison\<close>


lemma compareAscending_Str:
  "compareAscending s2n (JStr s) (JStr t) = (if t < s then 1 else if s < t then - 1 else 0)"
  by (auto simp: compareAscending_def strict_equals_def js_gt_def)

lemma compareAscending_Fin:
  "compareAscending s2n (JNum (Fin x)) (JNum (Fin y)) = (if y < x then 1 else if x < y then - 1 else 0)"
  by (auto simp: compareAscending_def strict_equals_def js_gt_def)



lemma norm_val_simps:
  "norm_val JNull = JStr ''''"
  "norm_val JUndefined = JStr ''''"
  "norm_val (JStr s) = JStr (toLocaleLowerCase s)"
  "norm_val (JNum n) = JNum n"
  "norm_val (JBool b) = JBool b"
  by (simp_all add: norm_val_def loose_eq_null_def)


lemma toLocaleLowerCase_Nil_iff: "toLocaleLowerCase s = [] \<longleftrightarrow> s = []"
  by (simp add: toLocaleLowerCase_def)

lemma get_prop_absent: "map_of obj k = None \<Longrightarrow> get_prop obj k = JUndefined"
  by (simp add: get_prop_def)


lemma null_before_string:
  assumes "loose_eq_null (get_prop a key)" "get_prop b key = JStr t" "t \<noteq> ''''"
  shows "compareAscending s2n (norm_val (get_prop a key)) (norm_val (get_prop b key)) = - 1"
    and "compareAscending s2n (norm_val (get_prop b key)) (norm_val (get_prop a key)) = 1"
proof -
  from assms(1) have a: "norm_val (get_prop a key) = JStr ''''"
    by (auto simp: loose_eq_null_def norm_val_simps)
  from assms(2) have b: "norm_val (get_prop b key) = JStr (toLocaleLowerCase t)"
    by (simp add: norm_val_simps)
  from assms(3) have "toLocaleLowerCase t \<noteq> []" by (simp add: toLocaleLowerCase_Nil_iff)
  then have "[] < toLocaleLowerCase t" by (cases "toLocaleLowerCase t") simp_all
  then show "compareAscending s2n (norm_val (get_prop a key)) (norm_val (get_prop b key)) = - 1"
    and "compareAscending s2n (norm_val (get_prop b key)) (norm_val (get_prop a key)) = 1"
    by (simp_all add: a b compareAscending_Str)
qed

lemma compareMultiple_iteratees:
  "compareMultiple s2n (wrap (iteratees key) (i, a)) (wrap (iteratees key) (j, b)) (orders order) =
     (let primary = compareAscending s2n (norm_val (get_prop a key)) (norm_val (get_prop b key));
          minor = compareAscending s2n (nullish (get_prop a ''id'') (JNum (Fin 0)))
                                       (nullish (get_prop b ''id'') (JNum (Fin 0)))
      in if primary \<noteq> 0 then (if order = Desc then - primary else primary)
         else if minor \<noteq> 0 then minor
         else int i - int j)"
  by (simp add: compareMultiple_def wrap_def iteratees_def orders_def Let_def)

lemma primary_string_norm:
  assumes "loose_eq_null (get_prop x key) \<or> typeof (get_prop x key) = ''string''"
  shows "norm_val (get_prop x key) = JStr (primary_string key x)"
proof (cases "get_prop x key")
  case JUndefined
  then show ?thesis by (simp add: primary_string_def norm_val_simps)
next
  case JNull
  then show ?thesis by (simp add: primary_string_def norm_val_simps)
next
  case (JBool b)
  with assms show ?thesis by (simp add: loose_eq_null_def)
next
  case (JNum n)
  with assms show ?thesis by (simp add: loose_eq_null_def)
next
  case (JStr s)
  then show ?thesis by (simp add: primary_string_def norm_val_simps)
qed

lemma key_compare_string_keyed:
  assumes "loose_eq_null (get_prop a key) \<or> typeof (get_prop a key) = ''string''"
    and "loose_eq_null (get_prop b key) \<or> typeof (get_prop b key) = ''string''"
  shows "key_compare s2n key Asc a b \<le> 0 \<Longrightarrow> primary_string key a \<le> primary_string key b"
    and "0 < key_compare s2n key Asc a b \<Longrightarrow> primary_string key b \<le> primary_string key a"
    and "key_compare s2n key Desc a b \<le> 0 \<Longrightarrow> primary_string key b \<le> primary_string key a"
    and "0 < key_compare s2n key Desc a b \<Longrightarrow> primary_string key a \<le> primary_string key b"
proof -
  let ?pa = "primary_string key a" and ?pb = "primary_string key b"
  note na = primary_string_norm [OF assms(1)] and nb = primary_string_norm [OF assms(2)]
  consider "?pa < ?pb" | "?pb < ?pa" | "?pa = ?pb" by (rule linorder_cases)
  then have "(key_compare s2n key Asc a b \<le> 0 \<longrightarrow> ?pa \<le> ?pb)
      \<and> (0 < key_compare s2n key Asc a b \<longrightarrow> ?pb \<le> ?pa)
      \<and> (key_compare s2n key Desc a b \<le> 0 \<longrightarrow> ?pb \<le> ?pa)
      \<and> (0 < key_compare s2n key Desc a b \<longrightarrow> ?pa \<le> ?pb)"
  proof cases
    case 1
    then have "\<not> ?pb < ?pa" "?pa \<le> ?pb" by (simp_all add: less_imp_le not_less)
    then show ?thesis by (simp add: key_compare_def na nb compareAscending_Str)
  next
    case 2
    then have "\<not> ?pa < ?pb" "?pb \<le> ?pa" by (simp_all add: less_imp_le not_less)
    with 2 show ?thesis by (simp add: key_compare_def na nb compareAscending_Str)
  next
    case 3
    then show ?thesis by simp
  qed
  then show "key_compare s2n key Asc a b \<le> 0 \<Longrightarrow> ?pa \<le> ?pb"
    and "0 < key_compare s2n key Asc a b \<Longrightarrow> ?pb \<le> ?pa"
    and "key_compare s2n key Desc a b \<le> 0 \<Longrightarrow> ?pb \<le> ?pa"
    and "0 < key_compare s2n key Desc a b \<Longrightarrow> ?pa \<le> ?pb"
    by blast+
qed

lemma expected_order_sorted_strings:
  assumes "string_keyed key xs"
  shows "sorted_wrt (\<lambda>a b. primary_string key a \<le> primary_string key b)
           (expected_order s2n xs key Asc)"
  unfolding expected_order_def stable_sort_by_def
proof (rule sorted_wrt_array_sort)
  fix x y assume "x \<in> set xs" "y \<in> set xs"
  with assms have x: "loose_eq_null (get_prop x key) \<or> typeof (get_prop x key) = ''string''"
    and y: "loose_eq_null (get_prop y key) \<or> typeof (get_prop y key) = ''string''"
    by (auto simp: string_keyed_def list_all_iff)
  show "key_compare s2n key Asc x y \<le> 0 \<Longrightarrow> primary_string key x \<le> primary_string key y"
    by (rule key_compare_string_keyed(1) [OF x y])
  show "0 < key_compare s2n key Asc x y \<Longrightarrow> primary_string key y \<le> primary_string key x"
    by (rule key_compare_string_keyed(2) [OF x y])
next
  fix x y z :: jsrec
  assume "primary_string key x \<le> primary_string key y"
    "primary_string key y \<le> primary_string key z"
  then show "primary_string key x \<le> primary_string key z" by (rule order_trans)
qed

lemma nulls_first:
  assumes sk: "string_keyed key xs"
    and i: "i < length xs" and j: "j < length xs"
    and null: "loose_eq_null (get_prop (expected_order s2n xs key Asc ! i) key)"
    and str: "get_prop (expected_order s2n xs key Asc ! j) key = JStr t" "t \<noteq> ''''"
  shows "i < j"
proof (rule ccontr)
  let ?ys = "expected_order s2n xs key Asc"
  assume "\<not> i < j"
  moreover have "i \<noteq> j" using null str by (auto simp: loose_eq_null_def)
  ultimately have ji: "j < i" by simp
  have len: "length ?ys = length xs"
    by (simp add: expected_order_def stable_sort_by_def length_array_sort)
  from expected_order_sorted_strings [OF sk, of s2n] ji i len
  have "primary_string key (?ys ! j) \<le> primary_string key (?ys ! i)"
    by (simp add: sorted_wrt_iff_nth_less)
  moreover have "primary_string key (?ys ! i) = []"
    using null by (auto simp: primary_string_def loose_eq_null_def norm_val_simps)
  moreover have "primary_string key (?ys ! j) = toLocaleLowerCase t"
    using str by (simp add: primary_string_def norm_val_simps)
  ultimately show False using str(2) by (simp add: toLocaleLowerCase_Nil_iff)
qed

subsection \<open>The stable sort of the specification\<close>

text \<open>
  \<open>stable_sort_by\<close> deserves its name: its result is a permutation of the input; when the
  comparison is consistent on the input the result is sorted by it, elements that compare
  as equal keep their input order, and no other list has these three properties.
\<close>

lemma stable_sort_by_perm: "mset (stable_sort_by cmp xs) = mset xs"
  by (simp add: stable_sort_by_def mset_array_sort)

lemma stable_sort_by_sorted:
  assumes "consistent_on cmp xs"
  shows "sorted_wrt (\<lambda>a b. cmp a b \<le> 0) (stable_sort_by cmp xs)"
proof -
  let ?R = "\<lambda>a b. a \<in> set xs \<and> b \<in> set xs \<and> cmp a b \<le> 0"
  have "sorted_wrt ?R (array_sort cmp xs)"
  proof (rule sorted_wrt_array_sort)
    show "?R x y" if "x \<in> set xs" "y \<in> set xs" "cmp x y \<le> 0" for x y
      using that by simp
    show "?R y x" if "x \<in> set xs" "y \<in> set xs" "0 < cmp x y" for x y
      using that assms by (simp add: consistent_on_def)
    show "?R x z" if "x \<in> set xs" "y \<in> set xs" "z \<in> set xs" "?R x y" "?R y z" for x y z
    proof -
      from that have "cmp x y \<le> 0" "cmp y z \<le> 0" by simp_all
      with that(1-3) assms have "cmp x z \<le> 0"
        unfolding consistent_on_def by blast
      with that(1,3) show ?thesis by simp
    qed
  qed
  then show ?thesis
    unfolding stable_sort_by_def by (rule sorted_wrt_mono_rel [rotated]) simp
qed

lemma filter_sort_insert:
  assumes "P x \<Longrightarrow> \<forall>y \<in> set ys. P y \<longrightarrow> cmp x y \<le> 0"
  shows "filter P (sort_insert cmp x ys) = (if P x then x # filter P ys else filter P ys)"
  using assms by (induction ys) auto

lemma stable_sort_by_stable:
  assumes c: "consistent_on cmp xs" and k: "k \<in> set xs"
  shows "filter (\<lambda>y. cmp k y \<le> 0 \<and> cmp y k \<le> 0) (stable_sort_by cmp xs)
           = filter (\<lambda>y. cmp k y \<le> 0 \<and> cmp y k \<le> 0) xs"
proof -
  let ?P = "\<lambda>y. cmp k y \<le> 0 \<and> cmp y k \<le> 0"
  have "set ys \<subseteq> set xs \<Longrightarrow> filter ?P (array_sort cmp ys) = filter ?P ys" for ys
  proof (induction ys)
    case Nil
    show ?case by (simp add: array_sort_Nil)
  next
    case (Cons y ys)
    have ins: "filter ?P (sort_insert cmp y (array_sort cmp ys))
        = (if ?P y then y # filter ?P (array_sort cmp ys) else filter ?P (array_sort cmp ys))"
    proof (rule filter_sort_insert)
      assume py: "?P y"
      show "\<forall>z \<in> set (array_sort cmp ys). ?P z \<longrightarrow> cmp y z \<le> 0"
      proof (intro ballI impI)
        fix z assume z: "z \<in> set (array_sort cmp ys)" and pz: "?P z"
        from z Cons.prems have "z \<in> set xs" by (auto simp: set_array_sort)
        moreover from Cons.prems have "y \<in> set xs" by simp
        moreover from py pz have "cmp y k \<le> 0" "cmp k z \<le> 0" by simp_all
        ultimately show "cmp y z \<le> 0"
          using c k unfolding consistent_on_def by blast
      qed
    qed
    from Cons.prems have "set ys \<subseteq> set xs" by simp
    then have "filter ?P (array_sort cmp ys) = filter ?P ys" by (rule Cons.IH)
    with ins show ?case by (simp add: array_sort_Cons)
  qed
  then show ?thesis by (simp add: stable_sort_by_def)
qed

lemma array_sort_sorted_id:
  "sorted_wrt (\<lambda>a b. cmp a b \<le> 0) xs \<Longrightarrow> array_sort cmp xs = xs"
proof (induction xs)
  case Nil
  show ?case by (simp add: array_sort_Nil)
next
  case (Cons x xs)
  then have "array_sort cmp xs = xs" by simp
  with Cons.prems show ?case
    by (cases xs) (simp_all add: array_sort_Cons)
qed

lemma consistent_on_refl:
  assumes "consistent_on cmp xs" "x \<in> set xs"
  shows "cmp x x \<le> 0"
proof (rule ccontr)
  assume "\<not> cmp x x \<le> 0"
  then have "0 < cmp x x" by simp
  with assms have "cmp x x \<le> 0" unfolding consistent_on_def by blast
  with \<open>0 < cmp x x\<close> show False by simp
qed

lemma consistent_on_subset:
  "consistent_on cmp xs \<Longrightarrow> set ys \<subseteq> set xs \<Longrightarrow> consistent_on cmp ys"
  unfolding consistent_on_def by blast

lemma sorted_stable_unique:
  assumes "consistent_on cmp ys"
    and "mset ys = mset zs"
    and "sorted_wrt (\<lambda>a b. cmp a b \<le> 0) ys"
    and "sorted_wrt (\<lambda>a b. cmp a b \<le> 0) zs"
    and "\<And>k. k \<in> set ys \<Longrightarrow>
           filter (\<lambda>y. cmp k y \<le> 0 \<and> cmp y k \<le> 0) ys
             = filter (\<lambda>y. cmp k y \<le> 0 \<and> cmp y k \<le> 0) zs"
  shows "ys = zs"
  using assms
proof (induction ys arbitrary: zs)
  case Nil
  then show ?case by simp
next
  case (Cons y ys)
  from Cons.prems(2) obtain z zs' where zs: "zs = z # zs'"
    by (cases zs) auto
  from Cons.prems(2) have sets: "set (y # ys) = set zs"
    by (metis set_mset_mset)
  have yy: "cmp y y \<le> 0"
    by (rule consistent_on_refl [OF Cons.prems(1)]) simp
  have yz: "cmp y z \<le> 0"
  proof -
    from sets zs have "z = y \<or> z \<in> set ys" by auto
    with yy Cons.prems(3) show ?thesis by auto
  qed
  have zy: "cmp z y \<le> 0"
  proof -
    from sets zs have "y = z \<or> y \<in> set zs'" by auto
    with yz Cons.prems(4) zs show ?thesis by auto
  qed
  from Cons.prems(5) [of y] yy yz zy zs have head: "y = z" by simp
  have "ys = zs'"
  proof (rule Cons.IH)
    show "consistent_on cmp ys"
      by (rule consistent_on_subset [OF Cons.prems(1)]) auto
    from Cons.prems(2) zs head show "mset ys = mset zs'" by simp
    from Cons.prems(3) show "sorted_wrt (\<lambda>a b. cmp a b \<le> 0) ys" by simp
    from Cons.prems(4) zs show "sorted_wrt (\<lambda>a b. cmp a b \<le> 0) zs'" by simp
    show "filter (\<lambda>w. cmp k w \<le> 0 \<and> cmp w k \<le> 0) ys
            = filter (\<lambda>w. cmp k w \<le> 0 \<and> cmp w k \<le> 0) zs'"
      if "k \<in> set ys" for k
      using Cons.prems(5) [of k] that zs head by (simp split: if_splits)
  qed
  with zs head show ?case by simp
qed

lemma stable_sort_by_unique:
  assumes c: "consistent_on cmp xs"
    and perm: "mset ys = mset xs"
    and sorted: "sorted_wrt (\<lambda>a b. cmp a b \<le> 0) ys"
    and stable: "\<And>k. k \<in> set xs \<Longrightarrow>
           filter (\<lambda>y. cmp k y \<le> 0 \<and> cmp y k \<le> 0) ys
             = filter (\<lambda>y. cmp k y \<le> 0 \<and> cmp y k \<le> 0) xs"
  shows "ys = stable_sort_by cmp xs"
proof (rule sorted_stable_unique)
  from perm have sets: "set ys = set xs" by (metis set_mset_mset)
  show "consistent_on cmp ys"
    by (rule consistent_on_subset [OF c]) (simp add: sets)
  show "mset ys = mset (stable_sort_by cmp xs)"
    by (simp add: perm stable_sort_by_perm)
  show "sorted_wrt (\<lambda>a b. cmp a b \<le> 0) ys" by (rule sorted)
  show "sorted_wrt (\<lambda>a b. cmp a b \<le> 0) (stable_sort_by cmp xs)"
    by (rule stable_sort_by_sorted [OF c])
  show "filter (\<lambda>y. cmp k y \<le> 0 \<and> cmp y k \<le> 0) ys
          = filter (\<lambda>y. cmp k y \<le> 0 \<and> cmp y k \<le> 0) (stable_sort_by cmp xs)"
    if "k \<in> set ys" for k
    using that sets stable [of k] stable_sort_by_stable [OF c, of k] by simp
qed

subsection \<open>Well-typed arrays\<close>

text \<open>
  On well-typed records the comparison of the check is the order \<open>key_le\<close>, which is total
  and transitive. So the check accepts a well-typed array exactly when it is sorted by
  \<open>key_le\<close>: by the lower-cased strings in the given direction, and by ascending id among
  equal strings.
\<close>

lemma id_number_norm:
  assumes "well_typed key x"
  shows "nullish (get_prop x ''id'') (JNum (Fin 0)) = JNum (Fin (id_number x))"
proof (cases "nullish (get_prop x ''id'') (JNum (Fin 0))")
  case (JNum n)
  with assms show ?thesis
    by (cases n) (simp_all add: well_typed_def id_number_def)
qed (use assms in \<open>simp_all add: well_typed_def\<close>)

lemma key_compare_well_typed:
  assumes a: "well_typed key a" and b: "well_typed key b"
  shows "key_compare s2n key order a b =
     (if primary_string key a < primary_string key b then (if order = Desc then 1 else - 1)
      else if primary_string key b < primary_string key a then (if order = Desc then - 1 else 1)
      else if id_number b < id_number a then 1
      else if id_number a < id_number b then - 1
      else 0)"
proof -
  from a have pa: "norm_val (get_prop a key) = JStr (primary_string key a)"
    by (intro primary_string_norm) (simp add: well_typed_def)
  from b have pb: "norm_val (get_prop b key) = JStr (primary_string key b)"
    by (intro primary_string_norm) (simp add: well_typed_def)
  note ia = id_number_norm [OF a] and ib = id_number_norm [OF b]
  consider "primary_string key a < primary_string key b"
    | "primary_string key b < primary_string key a"
    | "primary_string key a = primary_string key b"
    by (rule linorder_cases)
  then show ?thesis
  proof cases
    case 1
    then have "\<not> primary_string key b < primary_string key a" by (simp add: not_less less_imp_le)
    with 1 show ?thesis
      by (simp add: key_compare_def pa pb compareAscending_Str)
  next
    case 2
    then have "\<not> primary_string key a < primary_string key b" by (simp add: not_less less_imp_le)
    with 2 show ?thesis
      by (simp add: key_compare_def pa pb compareAscending_Str)
  next
    case 3
    then show ?thesis
      by (simp add: key_compare_def pa pb ia ib compareAscending_Str compareAscending_Fin)
  qed
qed

lemma key_compare_le_iff:
  assumes "well_typed key a" "well_typed key b"
  shows "key_compare s2n key order a b \<le> 0 \<longleftrightarrow> key_le key order a b"
  unfolding key_compare_well_typed [OF assms] key_le_def
  by (cases order) (auto simp: not_less)

lemma key_le_total: "key_le key order a b \<or> key_le key order b a"
  unfolding key_le_def by (cases order) (auto simp: not_less)

lemma key_le_trans:
  assumes "key_le key order a b" "key_le key order b c"
  shows "key_le key order a c"
proof (cases order)
  case Asc
  with assms show ?thesis
    unfolding key_le_def by (auto intro: less_trans order_trans)
next
  case Desc
  with assms show ?thesis
    unfolding key_le_def by (auto intro: less_trans order_trans)
qed

lemma key_compare_consistent:
  assumes "list_all (well_typed key) xs"
  shows "consistent_on (key_compare s2n key order) xs"
  unfolding consistent_on_def
proof (intro conjI ballI impI)
  fix x y assume "x \<in> set xs" "y \<in> set xs"
  with assms have wt: "well_typed key x" "well_typed key y" by (simp_all add: list_all_iff)
  assume "0 < key_compare s2n key order x y"
  then have "\<not> key_le key order x y"
    using key_compare_le_iff [OF wt, of s2n order] by simp
  then have "key_le key order y x" using key_le_total [of key order x y] by simp
  then show "key_compare s2n key order y x \<le> 0"
    by (simp add: key_compare_le_iff [OF wt(2) wt(1)])
next
  fix x y z assume "x \<in> set xs" "y \<in> set xs" "z \<in> set xs"
  with assms have wt: "well_typed key x" "well_typed key y" "well_typed key z"
    by (simp_all add: list_all_iff)
  assume "key_compare s2n key order x y \<le> 0" "key_compare s2n key order y z \<le> 0"
  then have "key_le key order x y" "key_le key order y z"
    by (simp_all add: key_compare_le_iff wt)
  then have "key_le key order x z" by (rule key_le_trans)
  then show "key_compare s2n key order x z \<le> 0"
    by (simp add: key_compare_le_iff wt)
qed

lemma expected_order_key_le:
  assumes wt: "list_all (well_typed key) xs"
  shows "sorted_wrt (key_le key order) (expected_order s2n xs key order)"
proof -
  let ?ys = "expected_order s2n xs key order"
  have s: "sorted_wrt (\<lambda>a b. key_compare s2n key order a b \<le> 0) ?ys"
    unfolding expected_order_def
    by (rule stable_sort_by_sorted) (rule key_compare_consistent [OF wt])
  have set: "set ?ys = set xs"
    by (simp add: expected_order_def stable_sort_by_def set_array_sort)
  show ?thesis
    unfolding sorted_wrt_iff_nth_less
  proof (intro allI impI)
    fix i j assume ij: "i < j" "j < length ?ys"
    then have "?ys ! i \<in> set xs" "?ys ! j \<in> set xs"
      using set nth_mem [of i ?ys] nth_mem [of j ?ys] by simp_all
    with wt have "well_typed key (?ys ! i)" "well_typed key (?ys ! j)"
      by (simp_all add: list_all_iff)
    moreover from s ij have "key_compare s2n key order (?ys ! i) (?ys ! j) \<le> 0"
      by (simp add: sorted_wrt_iff_nth_less)
    ultimately show "key_le key order (?ys ! i) (?ys ! j)"
      by (simp add: key_compare_le_iff)
  qed
qed

lemma isEqual_key_le:
  assumes "isEqual a a'" "isEqual b b'"
  shows "key_le key order a b = key_le key order a' b'"
proof -
  from assms have "get_prop a = get_prop a'" "get_prop b = get_prop b'"
    by (auto simp: isEqual_iff get_prop_def fun_eq_iff)
  then show ?thesis
    by (simp add: key_le_def primary_string_def id_number_def)
qed

lemma assertSortedByKey_iff_sorted:
  assumes wt: "list_all (well_typed key) xs"
  shows "result (assertSortedByKey s2n xs key order) = Inr ()
           \<longleftrightarrow> sorted_wrt (key_le key order) xs"
proof
  assume "result (assertSortedByKey s2n xs key order) = Inr ()"
  then have de: "deep_equal xs (expected_order s2n xs key order)"
    by (simp add: assertSortedByKey_result split: if_splits)
  let ?ys = "expected_order s2n xs key order"
  from de have len: "length xs = length ?ys" and eq: "\<forall>i < length xs. isEqual (xs ! i) (?ys ! i)"
    by (simp_all add: deep_equal_nth)
  have sorted: "sorted_wrt (key_le key order) ?ys"
    by (rule expected_order_key_le [OF wt])
  show "sorted_wrt (key_le key order) xs"
    unfolding sorted_wrt_iff_nth_less
  proof (intro allI impI)
    fix i j assume ij: "i < j" "j < length xs"
    then have "key_le key order (?ys ! i) (?ys ! j)"
      using sorted len by (simp add: sorted_wrt_iff_nth_less)
    moreover from ij eq have "isEqual (xs ! i) (?ys ! i)" "isEqual (xs ! j) (?ys ! j)"
      by simp_all
    ultimately show "key_le key order (xs ! i) (xs ! j)"
      by (simp add: isEqual_key_le [of "xs ! i" "?ys ! i" "xs ! j" "?ys ! j"])
  qed
next
  assume s: "sorted_wrt (key_le key order) xs"
  have "sorted_wrt (\<lambda>a b. key_compare s2n key order a b \<le> 0) xs"
    unfolding sorted_wrt_iff_nth_less
  proof (intro allI impI)
    fix i j assume ij: "i < j" "j < length xs"
    with wt have "well_typed key (xs ! i)" "well_typed key (xs ! j)"
      by (simp_all add: list_all_length)
    moreover from s ij have "key_le key order (xs ! i) (xs ! j)"
      by (simp add: sorted_wrt_iff_nth_less)
    ultimately show "key_compare s2n key order (xs ! i) (xs ! j) \<le> 0"
      by (simp add: key_compare_le_iff)
  qed
  then have "expected_order s2n xs key order = xs"
    by (simp add: expected_order_def stable_sort_by_def array_sort_sorted_id)
  then show "result (assertSortedByKey s2n xs key order) = Inr ()"
    by (simp add: assertSortedByKey_result deep_equal_refl)
qed

subsection \<open>Arrays and objects in the sort field\<close>

text \<open>
  The only error of a conversion is the \<^verbatim>\<open>TypeError\<close>, and a comparison of two values is
  the comparison of their primitive values, or the error of the first operand that has
  none.
\<close>

lemma ToString_error:
  "ToString n2s v = Inl e \<Longrightarrow> e = TypeError"
  "join n2s xs = Inl e \<Longrightarrow> e = TypeError"
  "element_text n2s w = Inl e \<Longrightarrow> e = TypeError"
  by (induction n2s v and n2s xs and n2s w rule: ToString_join_element_text.induct)
     (auto split: sum.splits if_splits)

lemma ToPrimitive_error: "ToPrimitive n2s v = Inl e \<Longrightarrow> e = TypeError"
  by (cases v) (auto split: sum.splits if_splits dest: ToString_error)

lemma ToPrimitive_cases:
  "ToPrimitive n2s v = Inl TypeError \<or> (\<exists>p. ToPrimitive n2s v = Inr p)"
  by (cases "ToPrimitive n2s v") (auto dest: ToPrimitive_error)





lemma converts_iff: "converts n2s v \<longleftrightarrow> ToPrimitive n2s v \<noteq> Inl TypeError"
  using ToPrimitive_cases [of n2s v] by (auto simp: converts_def split: sum.splits)




































text \<open>
  Deep equality is reflexive, and on records of scalars the functions of the two models
  agree.
\<close>

lemma fields_eq_refl:
  "(\<And>k v. (k, v) \<in> set rest \<Longrightarrow> deep_eq v v) \<Longrightarrow> fields_eq own rest own"
proof (induction rest)
  case Nil
  show ?case by simp
next
  case (Cons f rest)
  obtain k v where f: "f = (k, v)" by (cases f)
  have "deep_eq v v" by (rule Cons.prems [of k v]) (simp add: f)
  moreover have "fields_eq own rest own"
  proof (rule Cons.IH)
    fix k' v' assume "(k', v') \<in> set rest"
    then show "deep_eq v' v'" by (intro Cons.prems [of k' v']) simp
  qed
  ultimately show ?case by (simp add: f)
qed

lemma deep_eq_refl: "deep_eq v v"
proof (induction v)
  case (Prim x)
  show ?case by simp
next
  case (Arr xs)
  then show ?case by (simp add: list_all2_same)
next
  case (Obj fs)
  have "fields_eq fs fs fs"
  proof (rule fields_eq_refl)
    fix k v assume "(k, v) \<in> set fs"
    then show "deep_eq v v" by (rule Obj) simp
  qed
  moreover have "list_all (\<lambda>k. map_of fs k \<noteq> None) (map fst fs)"
    by (simp add: list_all_iff map_of_eq_None_iff)
  ultimately show ?case by simp
qed

lemma deep_equal_any_refl: "deep_equal_any xs xs"
  by (simp add: deep_equal_any_def isEqual_any_def list_all2_same deep_eq_refl)

lemma assertSortedByKey_any_short:
  assumes "length array \<le> 1"
  shows "assertSortedByKey_any s2n n2s array key order
           = \<lparr>result_any = Inr (), logged_any = None, array_after_any = array\<rparr>"
proof -
  from assms consider "array = []" | x where "array = [x]"
    by (cases array) auto
  then have "orderBy_any s2n n2s array (iteratees_any key) (orders order) = Inr array"
    by cases (simp_all add: orderBy_any_def baseOrderBy_any_def)
  then show ?thesis
    by (simp add: assertSortedByKey_any_def deep_equal_any_refl)
qed



















subsection \<open>The token cache\<close>

lemma store_tokens_sent: "sent (store_tokens req st answer) = [req]"
  by (simp add: store_tokens_def Let_def split: sum.splits)

lemma store_tokens_stored:
  "status resp = 200 \<Longrightarrow>
   cache (store_tokens req st (Inr resp))
     = \<lparr>accessToken = body_accessToken (resp_body resp),
        refreshToken = body_refreshToken (resp_body resp)\<rparr>
   \<and> returned (store_tokens req st (Inr resp)) = Inr (cache (store_tokens req st (Inr resp)))"
  by (simp add: store_tokens_def Let_def)

lemma store_tokens_failed:
  "returned (store_tokens req st answer) = Inl e \<Longrightarrow> cache (store_tokens req st answer) = st"
  by (cases answer) (simp_all add: store_tokens_def Let_def split: if_splits)

lemma store_tokens_cases:
  "(\<exists>resp. answer = Inr resp \<and> status resp = 200
       \<and> cache (store_tokens req st answer)
            = \<lparr>accessToken = body_accessToken (resp_body resp),
                refreshToken = body_refreshToken (resp_body resp)\<rparr>)
   \<or> cache (store_tokens req st answer) = st"
  by (cases answer) (simp_all add: store_tokens_def Let_def)

lemma exec_cases:
  "exec sv c st = st
   \<or> (\<exists>req resp. auth_service sv req = Inr resp \<and> status resp = 200
        \<and> exec sv c st = \<lparr>accessToken = body_accessToken (resp_body resp),
                            refreshToken = body_refreshToken (resp_body resp)\<rparr>)"
proof (cases c)
  case (LoginUser u p e)
  then show ?thesis
    using store_tokens_cases [of "auth_service sv _" _ st]
    by (auto simp: loginUser_def Let_def)
next
  case GetCurrentUser
  then show ?thesis
    by (simp add: getCurrentUser_def Let_def split: sum.splits)
next
  case (RefreshSession t e)
  then show ?thesis
    using store_tokens_cases [of "auth_service sv _" _ st]
    by (auto simp: refreshSession_def Let_def)
next
  case (GetProductByCategory x)
  then show ?thesis by (simp add: getProductByCategory_def Let_def)
qed

lemma exec_set:
  assumes "carries_tokens (auth_service sv)"
    and "\<not> falsy (accessToken st)" "\<not> falsy (refreshToken st)"
  shows "\<not> falsy (accessToken (exec sv c st)) \<and> \<not> falsy (refreshToken (exec sv c st))"
proof -
  from exec_cases [of sv c st] show ?thesis
  proof
    assume "exec sv c st = st"
    with assms(2,3) show ?thesis by simp
  next
    assume "\<exists>req resp. auth_service sv req = Inr resp \<and> status resp = 200
        \<and> exec sv c st = \<lparr>accessToken = body_accessToken (resp_body resp),
                            refreshToken = body_refreshToken (resp_body resp)\<rparr>"
    then obtain req resp where r: "auth_service sv req = Inr resp" "status resp = 200"
      and e: "exec sv c st = \<lparr>accessToken = body_accessToken (resp_body resp),
                            refreshToken = body_refreshToken (resp_body resp)\<rparr>"
      by blast
    from assms(1) r have "\<not> falsy (body_accessToken (resp_body resp))"
      "\<not> falsy (body_refreshToken (resp_body resp))"
      unfolding carries_tokens_def by blast+
    with e show ?thesis by simp
  qed
qed

lemma session_set:
  "list_all (\<lambda>step. carries_tokens (auth_service (fst step))) steps \<Longrightarrow>
   \<not> falsy (accessToken st) \<Longrightarrow> \<not> falsy (refreshToken st) \<Longrightarrow>
   \<not> falsy (accessToken (session steps st)) \<and> \<not> falsy (refreshToken (session steps st))"
proof (induction steps arbitrary: st)
  case Nil
  then show ?case by simp
next
  case (Cons step steps)
  obtain sv c where step: "step = (sv, c)" by (cases step)
  from Cons.prems(1) step have carries: "carries_tokens (auth_service sv)"
    and rest: "list_all (\<lambda>step. carries_tokens (auth_service (fst step))) steps"
    by simp_all
  from exec_set [OF carries Cons.prems(2,3), of c]
  have "\<not> falsy (accessToken (exec sv c st))" "\<not> falsy (refreshToken (exec sv c st))"
    by simp_all
  with rest show ?case unfolding step by (simp add: Cons.IH)
qed

section \<open>The order check: success and failure\<close>

text \<open>
  Claim C1. For every array of records, key and direction, \<^verbatim>\<open>assertSortedByKey\<close> succeeds
  exactly when the array is deeply equal, position by position, to the stable sort of a
  copy of it by the normalised primary value in the given direction and then by id
  ascending. The empty array and every one-element array succeed, and the array is the
  same after the call as before.
\<close>

theorem assertSortedByKey_iff_expected_order:
  "(result (assertSortedByKey s2n array key order) = Inr ()
      \<longleftrightarrow> deep_equal array (expected_order s2n array key order))
   \<and> result (assertSortedByKey s2n [] key order) = Inr ()
   \<and> result (assertSortedByKey s2n [x] key order) = Inr ()
   \<and> array_after (assertSortedByKey s2n array key order) = array"
proof (intro conjI)
  show "result (assertSortedByKey s2n array key order) = Inr ()
      \<longleftrightarrow> deep_equal array (expected_order s2n array key order)"
    by (simp add: assertSortedByKey_result)
  show "result (assertSortedByKey s2n [] key order) = Inr ()"
    by (simp add: assertSortedByKey_result expected_order_Nil deep_equal_refl)
  show "result (assertSortedByKey s2n [x] key order) = Inr ()"
    by (simp add: assertSortedByKey_result expected_order_single deep_equal_refl)
  show "array_after (assertSortedByKey s2n array key order) = array"
    by (simp add: assertSortedByKey_def Let_def catch_block_def)
qed

theorem assertSortedByKey_iff_expected_order_witness:
  "deep_equal apple_banana (expected_order no_number apple_banana ''title'' Asc)
   \<and> result (assertSortedByKey no_number apple_banana ''title'' Asc) = Inr ()
   \<and> \<not> deep_equal banana_apple (expected_order no_number banana_apple ''title'' Asc)
   \<and> result (assertSortedByKey no_number banana_apple ''title'' Asc) \<noteq> Inr ()"
proof -
  have yes: "deep_equal apple_banana (expected_order no_number apple_banana ''title'' Asc)"
    by code_simp
  have no: "\<not> deep_equal banana_apple (expected_order no_number banana_apple ''title'' Asc)"
    by code_simp
  from yes no
    assertSortedByKey_iff_expected_order
      [where ?s2n = no_number and array = apple_banana and key = "''title''" and order = Asc]
    assertSortedByKey_iff_expected_order
      [where ?s2n = no_number and array = banana_apple and key = "''title''" and order = Asc]
  show ?thesis by blast
qed

text \<open>
  Claim C4. Whenever the recomputed order differs from the array at some position \<open>k\<close>,
  \<^verbatim>\<open>assertSortedByKey\<close> ends with the assertion error; the scan finds the lowest index \<open>i\<close>
  at which the array and the recomputed order are not deeply equal, and the log entry
  carries that index with the expected and the actual element there. The \<^verbatim>\<open>catch\<close> block
  throws the error it caught whatever the scan yields, also when the scan finds no index
  and nothing is logged.
\<close>

theorem assertSortedByKey_failure_reported:
  "(k < length array
      \<and> \<not> isEqual (array ! k) (orderBy s2n array (iteratees key) (orders order) ! k) \<longrightarrow>
      result (assertSortedByKey s2n array key order)
        = Inl (AssertionError (assertion_message key order))
      \<and> (\<exists>i \<le> k.
            logged (assertSortedByKey s2n array key order)
              = Some \<lparr>log_name = ''Unordered Item'', break_index = i, log_key = key,
                      expected = Some (orderBy s2n array (iteratees key) (orders order) ! i),
                      actual = Some (array ! i), log_order = order\<rparr>
            \<and> \<not> isEqual (array ! i) (orderBy s2n array (iteratees key) (orders order) ! i)
            \<and> (\<forall>j < i. isEqual (array ! j)
                           (orderBy s2n array (iteratees key) (orders order) ! j))))
   \<and> result (catch_block err xs ys key order) = Inl err
   \<and> (firstMismatchIndex xs ys = None \<longrightarrow>
        logged (catch_block err xs ys key order) = None
        \<and> result (catch_block err xs ys key order) = Inl err)"
proof -
  let ?sorted = "orderBy s2n array (iteratees key) (orders order)"
  have found: "result (assertSortedByKey s2n array key order)
        = Inl (AssertionError (assertion_message key order))
      \<and> (\<exists>i \<le> k.
            logged (assertSortedByKey s2n array key order)
              = Some \<lparr>log_name = ''Unordered Item'', break_index = i, log_key = key,
                      expected = Some (?sorted ! i), actual = Some (array ! i),
                      log_order = order\<rparr>
            \<and> \<not> isEqual (array ! i) (?sorted ! i)
            \<and> (\<forall>j < i. isEqual (array ! j) (?sorted ! j)))"
    if k: "k < length array" and differs: "\<not> isEqual (array ! k) (?sorted ! k)"
  proof -
    have len: "length ?sorted = length array" by (rule length_orderBy)
    from k differs have neq: "\<not> deep_equal array ?sorted"
      by (auto simp: deep_equal_nth)
    from mismatch_found [OF len k differs]
    obtain i where i: "i \<le> k" "firstMismatchIndex array ?sorted = Some i" by blast
    from i(2) have props: "i < length array" "\<not> isEqual (array ! i) (?sorted ! i)"
        "\<forall>j < i. isEqual (array ! j) (?sorted ! j)"
      using len by (auto simp: firstMismatchIndex_Some)
    have res: "result (assertSortedByKey s2n array key order)
             = Inl (AssertionError (assertion_message key order))"
      using neq by (simp add: assertSortedByKey_def Let_def catch_block_def)
    have log: "logged (assertSortedByKey s2n array key order)
                = Some \<lparr>log_name = ''Unordered Item'', break_index = i, log_key = key,
                        expected = Some (?sorted ! i), actual = Some (array ! i),
                        log_order = order\<rparr>"
      using neq i(2) props(1) len
      by (simp add: assertSortedByKey_def Let_def catch_block_def pinpoint_def at_index_def)
    from res log i(1) props show ?thesis by blast
  qed
  have thrown: "result (catch_block err xs ys key order) = Inl err"
    by (simp add: catch_block_def)
  have silent: "logged (catch_block err xs ys key order) = None"
    if "firstMismatchIndex xs ys = None"
    using that by (simp add: catch_block_def pinpoint_def)
  from found thrown silent show ?thesis by blast
qed

theorem assertSortedByKey_failure_reported_witness:
  "result (assertSortedByKey no_number zeta_alpha ''title'' Asc)
     = Inl (AssertionError (assertion_message ''title'' Asc))
   \<and> (\<exists>i \<le> 1. map_option break_index (logged (assertSortedByKey no_number zeta_alpha ''title'' Asc))
                  = Some i)
   \<and> firstMismatchIndex [] [apple] = None
   \<and> logged (catch_block (AssertionError ''unequal'') [] [apple] ''title'' Asc) = None
   \<and> result (catch_block (AssertionError ''unequal'') [] [apple] ''title'' Asc)
        = Inl (AssertionError ''unequal'')"
proof -
  have k: "(1::nat) < length zeta_alpha"
    by (simp add: zeta_alpha_def)
  have differs:
    "\<not> isEqual (zeta_alpha ! 1) (orderBy no_number zeta_alpha (iteratees ''title'') (orders Asc) ! 1)"
    by code_simp
  have none: "firstMismatchIndex [] [apple] = None"
    by (simp add: firstMismatchIndex_def findIndex_def)
  from k differs none
    assertSortedByKey_failure_reported
      [where k = 1 and array = zeta_alpha and ?s2n = no_number and key = "''title''"
         and order = Asc and err = "AssertionError ''unequal''" and xs = "[]"
         and ys = "[apple]"]
  show ?thesis by fastforce
qed

text \<open>
  Claim C6. On \<^verbatim>\<open>[{id:1,title:"Zeta"},{id:2,title:"alpha"}]\<close> with key \<^verbatim>\<open>"title"\<close> and order
  \<^verbatim>\<open>"asc"\<close> the check fails and reports the mismatch at index 0;
  \<^verbatim>\<open>[{title:"Banana"},{title:"apple"}]\<close> fails the ascending check by title and
  \<^verbatim>\<open>[{title:"apple"},{title:"Banana"}]\<close> passes it.
\<close>

theorem assertSortedByKey_scenarios:
  "result (assertSortedByKey s2n zeta_alpha ''title'' Asc)
     = Inl (AssertionError (assertion_message ''title'' Asc))
   \<and> logged (assertSortedByKey s2n zeta_alpha ''title'' Asc)
     = Some \<lparr>log_name = ''Unordered Item'', break_index = 0, log_key = ''title'',
             expected = Some [(''id'', JNum (Fin 2)), (''title'', JStr ''alpha'')],
             actual = Some [(''id'', JNum (Fin 1)), (''title'', JStr ''Zeta'')],
             log_order = Asc\<rparr>
   \<and> result (assertSortedByKey s2n banana_apple ''title'' Asc)
     = Inl (AssertionError (assertion_message ''title'' Asc))
   \<and> result (assertSortedByKey s2n apple_banana ''title'' Asc) = Inr ()"
proof (intro conjI)
  show "result (assertSortedByKey s2n zeta_alpha ''title'' Asc)
     = Inl (AssertionError (assertion_message ''title'' Asc))"
    by code_simp
  show "logged (assertSortedByKey s2n zeta_alpha ''title'' Asc)
     = Some \<lparr>log_name = ''Unordered Item'', break_index = 0, log_key = ''title'',
             expected = Some [(''id'', JNum (Fin 2)), (''title'', JStr ''alpha'')],
             actual = Some [(''id'', JNum (Fin 1)), (''title'', JStr ''Zeta'')],
             log_order = Asc\<rparr>"
    by code_simp
  show "result (assertSortedByKey s2n banana_apple ''title'' Asc)
     = Inl (AssertionError (assertion_message ''title'' Asc))"
    by code_simp
  show "result (assertSortedByKey s2n apple_banana ''title'' Asc) = Inr ()"
    by code_simp
qed

theorem assertSortedByKey_scenarios_witness:
  "map_option break_index (logged (assertSortedByKey no_number zeta_alpha ''title'' Asc)) = Some 0
   \<and> result (assertSortedByKey no_number apple_banana ''title'' Asc) = Inr ()"
  using assertSortedByKey_scenarios [of no_number] by simp

section \<open>The order check: normalisation, tie-break and mixed types\<close>

text \<open>
  Claim C2. The normalisation of the primary value maps \<^verbatim>\<open>null\<close> and an absent field to
  the empty string, a string to its lower-cased form, and leaves a number or a boolean as
  it is. So a record whose sort field is \<^verbatim>\<open>null\<close> or absent normalises to \<^verbatim>\<open>""\<close> and, in
  ascending order, sorts before a record whose field is a non-empty string: the comparison
  puts it first, the two-element array in that order passes and in the other order fails,
  and in the recomputed order of an array whose sort field holds only strings and nulls
  every such record stands before every record with a non-empty string.
\<close>

theorem norm_val_null_first:
  "norm_val JNull = JStr ''''
   \<and> norm_val JUndefined = JStr ''''
   \<and> (map_of obj key = None \<longrightarrow> norm_val (get_prop obj key) = JStr '''')
   \<and> norm_val (JStr s) = JStr (toLocaleLowerCase s)
   \<and> norm_val (JNum n) = JNum n
   \<and> norm_val (JBool c) = JBool c
   \<and> (loose_eq_null (get_prop a key) \<and> get_prop b key = JStr t \<and> t \<noteq> '''' \<longrightarrow>
         norm_val (get_prop a key) = JStr ''''
       \<and> compareAscending s2n (norm_val (get_prop a key)) (norm_val (get_prop b key)) = - 1
       \<and> compareMultiple s2n (wrap (iteratees key) (i, a)) (wrap (iteratees key) (j, b))
             (orders Asc) < 0
       \<and> result (assertSortedByKey s2n [a, b] key Asc) = Inr ()
       \<and> result (assertSortedByKey s2n [b, a] key Asc)
             = Inl (AssertionError (assertion_message key Asc)))
   \<and> (string_keyed key xs \<and> k < length xs \<and> l < length xs
         \<and> loose_eq_null (get_prop (orderBy s2n xs (iteratees key) (orders Asc) ! k) key)
         \<and> get_prop (orderBy s2n xs (iteratees key) (orders Asc) ! l) key = JStr t
         \<and> t \<noteq> '''' \<longrightarrow> k < l)"
proof -
  have pair: "norm_val (get_prop a key) = JStr ''''
       \<and> compareAscending s2n (norm_val (get_prop a key)) (norm_val (get_prop b key)) = - 1
       \<and> compareMultiple s2n (wrap (iteratees key) (i, a)) (wrap (iteratees key) (j, b))
             (orders Asc) < 0
       \<and> result (assertSortedByKey s2n [a, b] key Asc) = Inr ()
       \<and> result (assertSortedByKey s2n [b, a] key Asc)
             = Inl (AssertionError (assertion_message key Asc))"
    if h: "loose_eq_null (get_prop a key)" "get_prop b key = JStr t" "t \<noteq> ''''"
  proof -
    note cmp = null_before_string [OF h, of s2n]
    from h(1) have n: "norm_val (get_prop a key) = JStr ''''"
      by (auto simp: loose_eq_null_def norm_val_simps)
    have ab: "key_compare s2n key Asc a b = - 1" and ba: "key_compare s2n key Asc b a = 1"
      by (simp_all add: key_compare_def cmp)
    have neq: "\<not> isEqual b a"
    proof
      assume "isEqual b a"
      then have "get_prop b key = get_prop a key" by (rule isEqual_get_prop)
      with h(1,2) show False by (simp add: loose_eq_null_def)
    qed
    have m: "compareMultiple s2n (wrap (iteratees key) (i, a)) (wrap (iteratees key) (j, b))
             (orders Asc) < 0"
      by (simp add: compareMultiple_iteratees cmp)
    have pass: "result (assertSortedByKey s2n [a, b] key Asc) = Inr ()"
      by (simp add: assertSortedByKey_pair ab)
    have "result (assertSortedByKey s2n [b, a] key Asc) \<noteq> Inr ()"
      by (simp add: assertSortedByKey_pair ba neq)
    then have fail: "result (assertSortedByKey s2n [b, a] key Asc)
             = Inl (AssertionError (assertion_message key Asc))"
      by (simp add: assertSortedByKey_result split: if_splits)
    from n cmp(1) m pass fail show ?thesis by simp
  qed
  have general: "k < l"
    if "string_keyed key xs" "k < length xs" "l < length xs"
      "loose_eq_null (get_prop (orderBy s2n xs (iteratees key) (orders Asc) ! k) key)"
      "get_prop (orderBy s2n xs (iteratees key) (orders Asc) ! l) key = JStr t" "t \<noteq> ''''"
    using that nulls_first [of key xs k l s2n t] by (simp add: orderBy_expected_order)
  have basics: "norm_val JNull = JStr ''''
      \<and> norm_val JUndefined = JStr ''''
      \<and> (map_of obj key = None \<longrightarrow> norm_val (get_prop obj key) = JStr '''')
      \<and> norm_val (JStr s) = JStr (toLocaleLowerCase s)
      \<and> norm_val (JNum n) = JNum n
      \<and> norm_val (JBool c) = JBool c"
    by (simp add: norm_val_simps get_prop_absent)
  from basics pair general show ?thesis by blast
qed

theorem norm_val_null_first_witness:
  "loose_eq_null (get_prop null_title ''title'')
   \<and> get_prop apple ''title'' = JStr ''Apple''
   \<and> norm_val (get_prop null_title ''title'') = JStr ''''
   \<and> result (assertSortedByKey no_number [null_title, apple] ''title'' Asc) = Inr ()
   \<and> result (assertSortedByKey no_number [apple, null_title] ''title'' Asc)
        = Inl (AssertionError (assertion_message ''title'' Asc))"
proof -
  have a: "loose_eq_null (get_prop null_title ''title'')"
    by (simp add: null_title_def get_prop_def loose_eq_null_def)
  have b: "get_prop apple ''title'' = JStr ''Apple''"
    by (simp add: apple_def get_prop_def)
  have c: "''Apple'' \<noteq> ''''"
    by simp
  from a b c
    norm_val_null_first
      [where a = null_title and b = apple and key = "''title''" and t = "''Apple''"
         and ?s2n = no_number]
  show ?thesis by blast
qed

text \<open>
  Claim C3. Two records whose normalised primary values are equal are ordered by their
  id ascending, a missing id counting as 0, whatever the primary direction is: the
  comparison of their entries is the comparison of the ids (and their input order when
  the ids are equal too), and with numeric ids the two-element array passes exactly when
  the first id is not greater than the second. In the recomputed order of a well-typed
  array, records with the same normalised string stand in ascending order of their ids.
  Two records with the same title and the ids 5 and 3, in that order, fail the ascending
  check by title; with 3 before 5 they pass.
\<close>

theorem tie_break_by_id:
  "(map_of a ''id'' = None \<longrightarrow> nullish (get_prop a ''id'') (JNum (Fin 0)) = JNum (Fin 0))
   \<and> (strict_equals (norm_val (get_prop a key)) (norm_val (get_prop b key)) \<longrightarrow>
        compareMultiple s2n (wrap (iteratees key) (i, a)) (wrap (iteratees key) (j, b))
            (orders order)
          = (let minor = compareAscending s2n (nullish (get_prop a ''id'') (JNum (Fin 0)))
                                          (nullish (get_prop b ''id'') (JNum (Fin 0)))
             in if minor \<noteq> 0 then minor else int i - int j))
   \<and> (strict_equals (norm_val (get_prop a key)) (norm_val (get_prop b key))
        \<and> nullish (get_prop a ''id'') (JNum (Fin 0)) = JNum (Fin m)
        \<and> nullish (get_prop b ''id'') (JNum (Fin 0)) = JNum (Fin n) \<longrightarrow>
        (result (assertSortedByKey s2n [a, b] key order) = Inr () \<longleftrightarrow> m \<le> n))
   \<and> (list_all (well_typed key) xs \<and> k < l \<and> l < length xs
        \<and> primary_string key (orderBy s2n xs (iteratees key) (orders order) ! k)
            = primary_string key (orderBy s2n xs (iteratees key) (orders order) ! l) \<longrightarrow>
        id_number (orderBy s2n xs (iteratees key) (orders order) ! k)
          \<le> id_number (orderBy s2n xs (iteratees key) (orders order) ! l))
   \<and> result (assertSortedByKey s2n tie_5_3 ''title'' Asc)
        = Inl (AssertionError (assertion_message ''title'' Asc))
   \<and> result (assertSortedByKey s2n tie_3_5 ''title'' Asc) = Inr ()"
proof -
  have positions: "id_number (orderBy s2n xs (iteratees key) (orders order) ! k)
          \<le> id_number (orderBy s2n xs (iteratees key) (orders order) ! l)"
    if wt: "list_all (well_typed key) xs" and kl: "k < l" "l < length xs"
      and tied: "primary_string key (orderBy s2n xs (iteratees key) (orders order) ! k)
            = primary_string key (orderBy s2n xs (iteratees key) (orders order) ! l)"
  proof -
    let ?ys = "expected_order s2n xs key order"
    have "length ?ys = length xs"
      by (simp add: expected_order_def stable_sort_by_def length_array_sort)
    with expected_order_key_le [OF wt, of order s2n] kl
    have "key_le key order (?ys ! k) (?ys ! l)"
      by (simp add: sorted_wrt_iff_nth_less)
    with tied show ?thesis
      by (auto simp: orderBy_expected_order key_le_def split: if_splits)
  qed
  have tie: "compareAscending s2n (norm_val (get_prop a key)) (norm_val (get_prop b key)) = 0"
    if "strict_equals (norm_val (get_prop a key)) (norm_val (get_prop b key))"
    using that by (simp add: compareAscending_def)
  have missing: "nullish (get_prop a ''id'') (JNum (Fin 0)) = JNum (Fin 0)"
    if "map_of a ''id'' = None"
    using that by (simp add: get_prop_absent nullish_def)
  have multiple: "compareMultiple s2n (wrap (iteratees key) (i, a)) (wrap (iteratees key) (j, b))
            (orders order)
          = (let minor = compareAscending s2n (nullish (get_prop a ''id'') (JNum (Fin 0)))
                                          (nullish (get_prop b ''id'') (JNum (Fin 0)))
             in if minor \<noteq> 0 then minor else int i - int j)"
    if "strict_equals (norm_val (get_prop a key)) (norm_val (get_prop b key))"
    using tie [OF that] by (simp add: compareMultiple_iteratees Let_def)
  have pair: "result (assertSortedByKey s2n [a, b] key order) = Inr () \<longleftrightarrow> m \<le> n"
    if eq: "strict_equals (norm_val (get_prop a key)) (norm_val (get_prop b key))"
      and ida: "nullish (get_prop a ''id'') (JNum (Fin 0)) = JNum (Fin m)"
      and idb: "nullish (get_prop b ''id'') (JNum (Fin 0)) = JNum (Fin n)"
  proof -
    have kc: "key_compare s2n key order a b = (if n < m then 1 else if m < n then - 1 else 0)"
      by (simp add: key_compare_def tie [OF eq] ida idb compareAscending_Fin)
    have "m = n" if "isEqual a b"
    proof -
      from that have "get_prop a ''id'' = get_prop b ''id''" by (rule isEqual_get_prop)
      with ida idb show ?thesis by simp
    qed
    then show ?thesis
      by (auto simp: assertSortedByKey_pair kc split: if_splits)
  qed
  have literal_fail: "result (assertSortedByKey s2n tie_5_3 ''title'' Asc)
        = Inl (AssertionError (assertion_message ''title'' Asc))"
    by code_simp
  have literal_pass: "result (assertSortedByKey s2n tie_3_5 ''title'' Asc) = Inr ()"
    by code_simp
  from missing multiple pair positions literal_fail literal_pass show ?thesis by blast
qed

theorem tie_break_by_id_witness:
  "strict_equals (norm_val (get_prop (tie_5_3 ! 0) ''title''))
                 (norm_val (get_prop (tie_5_3 ! 1) ''title''))
   \<and> result (assertSortedByKey no_number [tie_5_3 ! 0, tie_5_3 ! 1] ''title'' Desc) \<noteq> Inr ()
   \<and> result (assertSortedByKey no_number [tie_5_3 ! 1, tie_5_3 ! 0] ''title'' Desc) = Inr ()"
proof -
  have eq: "strict_equals (norm_val (get_prop (tie_5_3 ! 0) ''title''))
                          (norm_val (get_prop (tie_5_3 ! 1) ''title''))"
    by code_simp
  then have eq': "strict_equals (norm_val (get_prop (tie_5_3 ! 1) ''title''))
                          (norm_val (get_prop (tie_5_3 ! 0) ''title''))"
    by (auto simp: strict_equals_def)
  have id0: "nullish (get_prop (tie_5_3 ! 0) ''id'') (JNum (Fin 0)) = JNum (Fin 5)"
    by code_simp
  have id1: "nullish (get_prop (tie_5_3 ! 1) ''id'') (JNum (Fin 0)) = JNum (Fin 3)"
    by code_simp
  from eq eq' id0 id1
    tie_break_by_id
      [where a = "tie_5_3 ! 0" and b = "tie_5_3 ! 1" and key = "''title''" and m = 5 and n = 3
         and order = Desc and ?s2n = no_number]
    tie_break_by_id
      [where a = "tie_5_3 ! 1" and b = "tie_5_3 ! 0" and key = "''title''" and m = 3 and n = 5
         and order = Desc and ?s2n = no_number]
  show ?thesis by simp
qed




section \<open>The token cache\<close>

text \<open>
  Claim C7. \<^verbatim>\<open>getCurrentUser\<close> throws at once when no access token is cached, and
  \<^verbatim>\<open>refreshSession\<close> called without a refresh token throws at once when none is cached:
  the error is the result of the run, no request has been issued, and the cache is as it
  was.
\<close>

theorem missing_token_throws:
  "(accessToken st = None \<longrightarrow>
      returned (getCurrentUser cy_request st)
        = Inl (Error (''No access token '' @ em_dash @ '' call cy.loginUser() first''))
      \<and> sent (getCurrentUser cy_request st) = []
      \<and> cache (getCurrentUser cy_request st) = st)
   \<and> (refreshToken st = None \<longrightarrow>
      returned (refreshSession cy_auth None expiresInMins st)
        = Inl (Error (''No refresh token '' @ em_dash @ '' call cy.loginUser() first''))
      \<and> sent (refreshSession cy_auth None expiresInMins st) = []
      \<and> cache (refreshSession cy_auth None expiresInMins st) = st)"
  by (simp add: getCurrentUser_def refreshSession_def falsy_def js_or_def)

theorem missing_token_throws_witness:
  "returned (getCurrentUser offline initial_cache)
     = Inl (Error (''No access token '' @ em_dash @ '' call cy.loginUser() first''))
   \<and> sent (getCurrentUser offline initial_cache) = []
   \<and> returned (refreshSession fresh_tokens None None initial_cache)
     = Inl (Error (''No refresh token '' @ em_dash @ '' call cy.loginUser() first''))
   \<and> sent (refreshSession fresh_tokens None None initial_cache) = []"
  using missing_token_throws
    [where st = initial_cache and cy_request = offline and cy_auth = fresh_tokens
       and expiresInMins = None]
  by (simp add: initial_cache_def)

text \<open>
  Claim C8, as amended. Both variables are \<^verbatim>\<open>null\<close> when the module is loaded. A
  \<^verbatim>\<open>loginUser\<close> or \<^verbatim>\<open>refreshSession\<close> whose request is answered with status 200 assigns to
  both variables what the response body carries under \<^verbatim>\<open>accessToken\<close> and \<^verbatim>\<open>refreshToken\<close>,
  and returns that pair; a run that ends with an error leaves both as they were, and the
  other commands do not write them. A variable is set when it holds a non-empty string,
  which is what the helpers test. So a successful login or refresh sets both variables
  when the answer carries both tokens, and as long as every answer with status 200 does,
  no command and no session leaves a variable that was set unset.
\<close>

theorem token_cache_assigned:
  "accessToken initial_cache = None \<and> refreshToken initial_cache = None
   \<and> (cy_auth \<lparr>http_method = ''POST'', url = ''/auth/login'',
               headers = [(''Content-Type'', ''application/json'')],
               body = Some [(''username'', JStr username), (''password'', JStr password),
                            (''expiresInMins'', JNum (expires_default expiresInMins))]\<rparr>
          = Inr resp
        \<and> status resp = 200 \<longrightarrow>
        cache (loginUser cy_auth username password expiresInMins st)
          = \<lparr>accessToken = body_accessToken (resp_body resp),
             refreshToken = body_refreshToken (resp_body resp)\<rparr>
        \<and> returned (loginUser cy_auth username password expiresInMins st)
          = Inr (cache (loginUser cy_auth username password expiresInMins st)))
   \<and> (\<not> falsy (js_or provided (refreshToken st))
        \<and> cy_auth \<lparr>http_method = ''POST'', url = ''/auth/refresh'',
                    headers = [(''Content-Type'', ''application/json'')],
                    body = Some [(''refreshToken'',
                                  token_value (js_or provided (refreshToken st))),
                                 (''expiresInMins'', JNum (expires_default expiresInMins))]\<rparr>
          = Inr resp
        \<and> status resp = 200 \<longrightarrow>
        cache (refreshSession cy_auth provided expiresInMins st)
          = \<lparr>accessToken = body_accessToken (resp_body resp),
             refreshToken = body_refreshToken (resp_body resp)\<rparr>
        \<and> returned (refreshSession cy_auth provided expiresInMins st)
          = Inr (cache (refreshSession cy_auth provided expiresInMins st)))
   \<and> (returned (loginUser cy_auth username password expiresInMins st) = Inl e \<longrightarrow>
        cache (loginUser cy_auth username password expiresInMins st) = st)
   \<and> (returned (refreshSession cy_auth provided expiresInMins st) = Inl e \<longrightarrow>
        cache (refreshSession cy_auth provided expiresInMins st) = st)
   \<and> cache (getCurrentUser cy_request st) = st
   \<and> cache (getProductByCategory cy_request category st) = st
   \<and> (carries_tokens cy_auth
        \<and> returned (loginUser cy_auth username password expiresInMins st) = Inr toks \<longrightarrow>
        \<not> falsy (accessToken (cache (loginUser cy_auth username password expiresInMins st)))
        \<and> \<not> falsy (refreshToken
                       (cache (loginUser cy_auth username password expiresInMins st))))
   \<and> (carries_tokens cy_auth
        \<and> returned (refreshSession cy_auth provided expiresInMins st) = Inr toks \<longrightarrow>
        \<not> falsy (accessToken (cache (refreshSession cy_auth provided expiresInMins st)))
        \<and> \<not> falsy (refreshToken
                       (cache (refreshSession cy_auth provided expiresInMins st))))
   \<and> (carries_tokens (auth_service sv)
        \<and> \<not> falsy (accessToken st) \<and> \<not> falsy (refreshToken st) \<longrightarrow>
        \<not> falsy (accessToken (exec sv c st)) \<and> \<not> falsy (refreshToken (exec sv c st)))
   \<and> (list_all (\<lambda>step. carries_tokens (auth_service (fst step))) steps
        \<and> \<not> falsy (accessToken st) \<and> \<not> falsy (refreshToken st) \<longrightarrow>
        \<not> falsy (accessToken (session steps st))
        \<and> \<not> falsy (refreshToken (session steps st)))"
proof -
  let ?login = "loginUser cy_auth username password expiresInMins st"
  let ?refresh = "refreshSession cy_auth provided expiresInMins st"
  have init: "accessToken initial_cache = None \<and> refreshToken initial_cache = None"
    by (simp add: initial_cache_def)
  have login: "cache ?login
          = \<lparr>accessToken = body_accessToken (resp_body resp),
             refreshToken = body_refreshToken (resp_body resp)\<rparr>
        \<and> returned ?login = Inr (cache ?login)"
    if "cy_auth \<lparr>http_method = ''POST'', url = ''/auth/login'',
               headers = [(''Content-Type'', ''application/json'')],
               body = Some [(''username'', JStr username), (''password'', JStr password),
                            (''expiresInMins'', JNum (expires_default expiresInMins))]\<rparr>
          = Inr resp" "status resp = 200"
    using that store_tokens_stored [of resp] by (simp add: loginUser_def Let_def)
  have refresh: "cache ?refresh
          = \<lparr>accessToken = body_accessToken (resp_body resp),
             refreshToken = body_refreshToken (resp_body resp)\<rparr>
        \<and> returned ?refresh = Inr (cache ?refresh)"
    if "\<not> falsy (js_or provided (refreshToken st))"
      "cy_auth \<lparr>http_method = ''POST'', url = ''/auth/refresh'',
                    headers = [(''Content-Type'', ''application/json'')],
                    body = Some [(''refreshToken'',
                                  token_value (js_or provided (refreshToken st))),
                                 (''expiresInMins'', JNum (expires_default expiresInMins))]\<rparr>
          = Inr resp" "status resp = 200"
    using that store_tokens_stored [of resp] by (simp add: refreshSession_def Let_def)
  have login_failed: "cache ?login = st" if "returned ?login = Inl e"
    using that by (simp add: loginUser_def Let_def store_tokens_failed)
  have refresh_failed: "cache ?refresh = st" if "returned ?refresh = Inl e"
    using that by (auto simp: refreshSession_def Let_def store_tokens_failed split: if_splits)
  have others: "cache (getCurrentUser cy_request st) = st
      \<and> cache (getProductByCategory cy_request category st) = st"
    by (simp add: getCurrentUser_def getProductByCategory_def Let_def split: sum.splits)
  have login_sets: "\<not> falsy (accessToken (cache ?login))
      \<and> \<not> falsy (refreshToken (cache ?login))"
    if "carries_tokens cy_auth" "returned ?login = Inr toks"
    using that unfolding carries_tokens_def
    by (auto simp: loginUser_def store_tokens_def Let_def split: sum.splits if_splits)
  have refresh_sets: "\<not> falsy (accessToken (cache ?refresh))
      \<and> \<not> falsy (refreshToken (cache ?refresh))"
    if "carries_tokens cy_auth" "returned ?refresh = Inr toks"
    using that unfolding carries_tokens_def
    by (auto simp: refreshSession_def store_tokens_def Let_def split: sum.splits if_splits)
  have step: "\<not> falsy (accessToken (exec sv c st)) \<and> \<not> falsy (refreshToken (exec sv c st))"
    if "carries_tokens (auth_service sv)" "\<not> falsy (accessToken st)"
      "\<not> falsy (refreshToken st)"
    using that by (rule exec_set)
  have run: "\<not> falsy (accessToken (session steps st))
      \<and> \<not> falsy (refreshToken (session steps st))"
    if "list_all (\<lambda>step. carries_tokens (auth_service (fst step))) steps"
      "\<not> falsy (accessToken st)" "\<not> falsy (refreshToken st)"
    using that by (rule session_set)
  from init login refresh login_failed refresh_failed others login_sets refresh_sets step run
  show ?thesis by blast
qed

theorem token_cache_assigned_witness:
  "carries_tokens fresh_tokens
   \<and> cache (loginUser fresh_tokens ''emilys'' ''emilyspass'' None initial_cache)
        = \<lparr>accessToken = Some ''access-2'', refreshToken = Some ''refresh-2''\<rparr>
   \<and> returned (loginUser fresh_tokens ''emilys'' ''emilyspass'' None initial_cache)
        = Inr \<lparr>accessToken = Some ''access-2'', refreshToken = Some ''refresh-2''\<rparr>
   \<and> cache (refreshSession fresh_tokens None None logged_in)
        = \<lparr>accessToken = Some ''access-2'', refreshToken = Some ''refresh-2''\<rparr>
   \<and> cache (refreshSession offline_auth None None logged_in) = logged_in
   \<and> \<not> falsy (accessToken
         (session [(\<lparr>auth_service = fresh_tokens, api_service = offline\<rparr>, GetCurrentUser),
                   (\<lparr>auth_service = fresh_tokens, api_service = offline\<rparr>,
                    RefreshSession (Some '''') None)] logged_in))"
proof -
  have carries: "carries_tokens fresh_tokens"
    by (simp add: carries_tokens_def fresh_tokens_def falsy_def)
  have answer: "fresh_tokens req
      = Inr \<lparr>status = 200,
             resp_body = \<lparr>body_accessToken = Some ''access-2'',
                          body_refreshToken = Some ''refresh-2''\<rparr>\<rparr>" for req
    by (simp add: fresh_tokens_def)
  have truthy: "\<not> falsy (js_or None (refreshToken logged_in))"
    by (simp add: falsy_def js_or_def logged_in_def)
  have failed: "returned (refreshSession offline_auth None None logged_in) = Inl RequestFailed"
    by (simp add: refreshSession_def store_tokens_def offline_auth_def js_or_def falsy_def
        logged_in_def Let_def)
  have set: "\<not> falsy (accessToken logged_in)" "\<not> falsy (refreshToken logged_in)"
    by (simp_all add: logged_in_def falsy_def)
  have all: "list_all (\<lambda>step. carries_tokens (auth_service (fst step)))
      [(\<lparr>auth_service = fresh_tokens, api_service = offline\<rparr>, GetCurrentUser),
       (\<lparr>auth_service = fresh_tokens, api_service = offline\<rparr>, RefreshSession (Some '''') None)]"
    using carries by simp
  note login = token_cache_assigned
      [where cy_auth = fresh_tokens and username = "''emilys''" and password = "''emilyspass''"
         and expiresInMins = None and st = initial_cache
         and resp = "\<lparr>status = 200,
             resp_body = \<lparr>body_accessToken = Some ''access-2'',
                          body_refreshToken = Some ''refresh-2''\<rparr>\<rparr>"]
  note refresh = token_cache_assigned
      [where cy_auth = fresh_tokens and provided = None
         and expiresInMins = None and st = logged_in
         and resp = "\<lparr>status = 200,
             resp_body = \<lparr>body_accessToken = Some ''access-2'',
                          body_refreshToken = Some ''refresh-2''\<rparr>\<rparr>"
         and steps = "[(\<lparr>auth_service = fresh_tokens, api_service = offline\<rparr>, GetCurrentUser),
                       (\<lparr>auth_service = fresh_tokens, api_service = offline\<rparr>,
                        RefreshSession (Some '''') None)]"]
  note fail = token_cache_assigned
      [where cy_auth = offline_auth and provided = None and expiresInMins = None
         and st = logged_in and e = RequestFailed]
  from carries answer truthy failed set all login refresh fail show ?thesis
    by simp
qed

theorem token_cache_cleared_counterexample:
  "\<not> falsy (accessToken logged_in) \<and> \<not> falsy (refreshToken logged_in)
   \<and> returned (refreshSession tokenless None None logged_in)
        = Inr \<lparr>accessToken = None, refreshToken = None\<rparr>
   \<and> accessToken (exec \<lparr>auth_service = tokenless, api_service = offline\<rparr>
                        (RefreshSession None None) logged_in) = None
   \<and> refreshToken (exec \<lparr>auth_service = tokenless, api_service = offline\<rparr>
                         (RefreshSession None None) logged_in) = None
   \<and> returned (loginUser tokenless ''emilys'' ''emilyspass'' None initial_cache)
        = Inr \<lparr>accessToken = None, refreshToken = None\<rparr>
   \<and> accessToken (cache (loginUser tokenless ''emilys'' ''emilyspass'' None initial_cache)) = None"
  by (simp add: refreshSession_def loginUser_def store_tokens_def tokenless_def logged_in_def
      initial_cache_def js_or_def falsy_def Let_def)

section \<open>The request helpers\<close>

text \<open>
  Claim C9. For every category argument \<^verbatim>\<open>getProductByCategory\<close> issues one GET request
  to the fixed path \<^verbatim>\<open>/products/category/smartphones\<close>: its run does not depend on the
  category it is called with.
\<close>

theorem getProductByCategory_fixed_path:
  "sent (getProductByCategory cy_request category st)
     = [\<lparr>http_method = ''GET'', url = ''/products/category/smartphones'', headers = [],
          body = None\<rparr>]
   \<and> getProductByCategory cy_request category st = getProductByCategory cy_request category' st"
  by (simp add: getProductByCategory_def Let_def)

theorem getProductByCategory_fixed_path_witness:
  "sent (getProductByCategory offline ''laptops'' initial_cache)
     = [\<lparr>http_method = ''GET'', url = ''/products/category/smartphones'', headers = [],
          body = None\<rparr>]
   \<and> getProductByCategory offline ''laptops'' initial_cache
     = getProductByCategory offline ''tablets'' initial_cache"
  by (rule getProductByCategory_fixed_path)

text \<open>
  Claim C10. \<^verbatim>\<open>refreshSession\<close> treats a falsy provided refresh token, the empty string
  included, as absent: when a refresh token is cached, the request body carries the
  cached token; the error is thrown, before any request, exactly when the provided and
  the cached token are both falsy.
\<close>

theorem refreshSession_falsy_token:
  "(falsy provided \<and> \<not> falsy (refreshToken st) \<longrightarrow>
      sent (refreshSession cy_auth provided expiresInMins st)
        = [\<lparr>http_method = ''POST'', url = ''/auth/refresh'',
             headers = [(''Content-Type'', ''application/json'')],
             body = Some [(''refreshToken'', token_value (refreshToken st)),
                          (''expiresInMins'', JNum (expires_default expiresInMins))]\<rparr>])
   \<and> (falsy provided \<and> falsy (refreshToken st) \<longrightarrow>
      returned (refreshSession cy_auth provided expiresInMins st)
        = Inl (Error (''No refresh token '' @ em_dash @ '' call cy.loginUser() first'')))
   \<and> (sent (refreshSession cy_auth provided expiresInMins st) = []
        \<longleftrightarrow> falsy provided \<and> falsy (refreshToken st))
   \<and> falsy (Some '''')"
  by (simp add: refreshSession_def js_or_def Let_def store_tokens_sent) (simp add: falsy_def)

theorem refreshSession_falsy_token_witness:
  "falsy (Some '''') \<and> \<not> falsy (refreshToken logged_in)
   \<and> sent (refreshSession fresh_tokens (Some '''') None logged_in)
     = [\<lparr>http_method = ''POST'', url = ''/auth/refresh'',
          headers = [(''Content-Type'', ''application/json'')],
          body = Some [(''refreshToken'', JStr ''refresh-1''),
                       (''expiresInMins'', JNum (Fin 30))]\<rparr>]"
proof -
  have f: "falsy (Some '''')" "\<not> falsy (refreshToken logged_in)"
    by (simp_all add: falsy_def logged_in_def)
  from f
    refreshSession_falsy_token
      [where provided = "Some ''''" and st = logged_in and cy_auth = fresh_tokens
         and expiresInMins = None]
  show ?thesis by (simp add: logged_in_def expires_default_def)
qed

end
